theory Spec2Isabelle
  imports Complex_Main
begin

section \<open>Numbers\<close>

text \<open>
  The tensors of \<^verbatim>\<open>evaluate.py\<close> and \<^verbatim>\<open>model1.py\<close> hold floating-point numbers.
  They are modelled with exact arithmetic on the finite values and with the three
  non-finite values a division can produce: rounding and the sign of zero are left
  out, division by zero, infinities and NaN are kept.
\<close>

datatype fv = Fin real | PInf | NInf | NaN

fun is_fin :: "fv \<Rightarrow> bool" where
  "is_fin (Fin _) = True"
| "is_fin _ = False"

fun rval :: "fv \<Rightarrow> real" where
  "rval (Fin a) = a"
| "rval _ = 0"

fun fneg :: "fv \<Rightarrow> fv" where
  "fneg (Fin a) = Fin (- a)"
| "fneg PInf = NInf"
| "fneg NInf = PInf"
| "fneg NaN = NaN"

fun fadd :: "fv \<Rightarrow> fv \<Rightarrow> fv" where
  "fadd (Fin a) (Fin b) = Fin (a + b)"
| "fadd NaN _ = NaN"
| "fadd _ NaN = NaN"
| "fadd PInf NInf = NaN"
| "fadd NInf PInf = NaN"
| "fadd PInf _ = PInf"
| "fadd _ PInf = PInf"
| "fadd NInf _ = NInf"
| "fadd _ NInf = NInf"

definition fsub :: "fv \<Rightarrow> fv \<Rightarrow> fv" where
  "fsub x y = fadd x (fneg y)"

text \<open>The infinity of the sign of a non-zero real.\<close>

definition inf_sign :: "real \<Rightarrow> fv" where
  "inf_sign a = (if a = 0 then NaN else if 0 < a then PInf else NInf)"

fun fmul :: "fv \<Rightarrow> fv \<Rightarrow> fv" where
  "fmul (Fin a) (Fin b) = Fin (a * b)"
| "fmul NaN _ = NaN"
| "fmul _ NaN = NaN"
| "fmul (Fin a) PInf = inf_sign a"
| "fmul (Fin a) NInf = inf_sign (- a)"
| "fmul PInf (Fin b) = inf_sign b"
| "fmul NInf (Fin b) = inf_sign (- b)"
| "fmul PInf PInf = PInf"
| "fmul NInf NInf = PInf"
| "fmul PInf NInf = NInf"
| "fmul NInf PInf = NInf"

text \<open>
  Division: a finite value over zero is the infinity of its sign, zero over zero and
  infinity over infinity are NaN, a finite value over an infinity is zero.
\<close>

fun fdiv :: "fv \<Rightarrow> fv \<Rightarrow> fv" where
  "fdiv (Fin a) (Fin b) = (if b = 0 then inf_sign a else Fin (a / b))"
| "fdiv NaN _ = NaN"
| "fdiv _ NaN = NaN"
| "fdiv (Fin a) _ = Fin 0"
| "fdiv PInf (Fin b) = (if 0 \<le> b then PInf else NInf)"
| "fdiv NInf (Fin b) = (if 0 \<le> b then NInf else PInf)"
| "fdiv _ _ = NaN"

fun fabs :: "fv \<Rightarrow> fv" where
  "fabs (Fin a) = Fin \<bar>a\<bar>"
| "fabs PInf = PInf"
| "fabs NInf = PInf"
| "fabs NaN = NaN"

fun fsqrt :: "fv \<Rightarrow> fv" where
  "fsqrt (Fin a) = (if a < 0 then NaN else Fin (sqrt a))"
| "fsqrt PInf = PInf"
| "fsqrt NInf = NaN"
| "fsqrt NaN = NaN"

text \<open>\<^verbatim>\<open>x.sum()\<close> of a vector, and \<^verbatim>\<open>x.mean()\<close>: the sum over the number of elements.\<close>

definition fsum :: "fv list \<Rightarrow> fv" where
  "fsum xs = foldr fadd xs (Fin 0)"

definition fmean :: "fv list \<Rightarrow> fv" where
  "fmean xs = fdiv (fsum xs) (Fin (real (length xs)))"

section \<open>Top-down disaggregation (\<^verbatim>\<open>model1.py\<close>, \<^verbatim>\<open>main\<close>)\<close>

text \<open>
  \<^verbatim>\<open>sales_last28 = m5.get_aggregated_sales(m5.aggregation_levels[-1])[:, -28:]\<close>:
  the sales are a matrix with one row per bottom-level series, and the slice keeps the
  last 28 entries of every row (the whole row when it is shorter).
\<close>

definition sales_last28 :: "fv list list \<Rightarrow> fv list list" where
  "sales_last28 sales = map (\<lambda>row. drop (length row - 28) row) sales"

text \<open>\<^verbatim>\<open>proportion = sales_last28.sum(-1) / sales_last28.sum()\<close>\<close>

definition proportion :: "fv list list \<Rightarrow> fv list" where
  "proportion sales =
     (let s28 = sales_last28 sales;
          total = fsum (map fsum s28)
      in map (\<lambda>row. fdiv (fsum row) total) s28)"

text \<open>\<^verbatim>\<open>prediction = proportion.ger(pred)\<close>: the outer product.\<close>

definition ger :: "fv list \<Rightarrow> fv list \<Rightarrow> fv list list" where
  "ger u v = map (\<lambda>a. map (\<lambda>b. fmul a b) v) u"

definition prediction :: "fv list list \<Rightarrow> fv list \<Rightarrow> fv list list" where
  "prediction sales pred = ger (proportion sales) pred"

text \<open>The grand total of the trailing 28 periods, \<^verbatim>\<open>sales_last28.sum()\<close>.\<close>

definition grand_total :: "fv list list \<Rightarrow> fv" where
  "grand_total sales = fsum (map fsum (sales_last28 sales))"

section \<open>Tensors\<close>

text \<open>
  A tensor is a scalar or a list of tensors along its first axis. Every list node
  stores the shape of its elements, so that an axis of size 0 keeps the sizes of the
  axes inside it: the shape of \<open>Ts inner xs\<close> is \<open>length xs # inner\<close>.
\<close>

datatype 'a tensor = Sc 'a | Ts "nat list" "'a tensor list"

datatype error = IndexError | RuntimeError | AssertionError | KeyError | ValueError
  | ExternalError string

fun shape :: "'a tensor \<Rightarrow> nat list" where
  "shape (Sc _) = []"
| "shape (Ts inner xs) = length xs # inner"

fun has_shape :: "nat list \<Rightarrow> 'a tensor \<Rightarrow> bool" where
  "has_shape [] (Sc _) = True"
| "has_shape (n # sh) (Ts inner xs) =
     (inner = sh \<and> length xs = n \<and> (\<forall>x\<in>set xs. has_shape sh x))"
| "has_shape _ _ = False"

fun unSc :: "'a tensor \<Rightarrow> 'a" where
  "unSc (Sc x) = x"
| "unSc (Ts _ _) = undefined"

text \<open>A vector and a matrix (a list of rows of \<open>d\<close> columns) as tensors.\<close>

definition vec :: "'a list \<Rightarrow> 'a tensor" where
  "vec xs = Ts [] (map Sc xs)"

definition mat :: "nat \<Rightarrow> 'a list list \<Rightarrow> 'a tensor" where
  "mat d rows = Ts [d] (map vec rows)"

text \<open>The sub-tensor and the element at a list of indices.\<close>

fun subt :: "'a tensor \<Rightarrow> nat list \<Rightarrow> 'a tensor" where
  "subt t [] = t"
| "subt (Ts _ xs) (i # p) = subt (xs ! i) p"
| "subt (Sc x) (i # p) = Sc x"

definition elem :: "'a tensor \<Rightarrow> nat list \<Rightarrow> 'a" where
  "elem t p = unSc (subt t p)"

text \<open>The lists of indices within a shape.\<close>

definition valid :: "nat list \<Rightarrow> nat list \<Rightarrow> bool" where
  "valid sh p = list_all2 (\<lambda>i n. i < n) p sh"

text \<open>\<^verbatim>\<open>torch.full(shape, v)\<close>\<close>

fun full :: "nat list \<Rightarrow> 'a \<Rightarrow> 'a tensor" where
  "full [] v = Sc v"
| "full (n # sh) v = Ts sh (replicate n (full sh v))"

text \<open>Element-wise operations: one tensor (\<open>map_tensor\<close>), two tensors of one shape.\<close>

function zipT :: "('a \<Rightarrow> 'b \<Rightarrow> 'c) \<Rightarrow> 'a tensor \<Rightarrow> 'b tensor \<Rightarrow> 'c tensor" where
  "zipT f (Sc a) (Sc b) = Sc (f a b)"
| "zipT f (Ts inner xs) (Ts inner' ys) = Ts inner (map (\<lambda>(x, y). zipT f x y) (zip xs ys))"
| "zipT f (Sc a) (Ts inner' ys) = Ts inner' []"
| "zipT f (Ts inner xs) (Sc b) = Ts inner []"
  by pat_completeness auto
termination
proof (relation "measure (\<lambda>(f, a, b). size a)")
  show "wf (measure (\<lambda>(f, a, b). size a))" by simp
next
  fix f :: "'a \<Rightarrow> 'b \<Rightarrow> 'c" and inner inner' :: "nat list"
    and xs :: "'a tensor list" and ys :: "'b tensor list" and z x y
  assume "z \<in> set (zip xs ys)" "(x, y) = z"
  then have "x \<in> set xs" by (auto dest: set_zip_leftD)
  then have "size x < Suc (size_list size xs)"
    by (simp add: less_Suc_eq_le size_list_estimation')
  then show "((f, x, y), (f, Ts inner xs, Ts inner' ys)) \<in> measure (\<lambda>(f, a, b). size a)"
    by simp
qed

text \<open>
  Broadcasting. Two shapes are aligned at their last axes; two sizes are compatible
  when they are equal or one of them is 1. \<open>expand\<close> is \<^verbatim>\<open>Tensor.expand\<close> to a
  shape the tensor's shape broadcasts to.
\<close>

fun bshape_rev :: "nat list \<Rightarrow> nat list \<Rightarrow> nat list option" where
  "bshape_rev [] ys = Some ys"
| "bshape_rev xs [] = Some xs"
| "bshape_rev (x # xs) (y # ys) =
     (if x = y \<or> y = 1 then map_option ((#) x) (bshape_rev xs ys)
      else if x = 1 then map_option ((#) y) (bshape_rev xs ys)
      else None)"

definition broadcast_shapes :: "nat list \<Rightarrow> nat list \<Rightarrow> nat list option" where
  "broadcast_shapes a b = map_option rev (bshape_rev (rev a) (rev b))"

fun expand :: "nat list \<Rightarrow> 'a tensor \<Rightarrow> 'a tensor" where
  "expand [] t = t"
| "expand (n # sh) t =
     (if length (shape t) < Suc (length sh) then Ts sh (replicate n (expand sh t))
      else (case t of
              Sc x \<Rightarrow> Sc x
            | Ts inner xs \<Rightarrow>
                (if length xs = n then Ts sh (map (expand sh) xs)
                 else (case xs of
                         [x] \<Rightarrow> Ts sh (replicate n (expand sh x))
                       | _ \<Rightarrow> Ts sh (map (expand sh) xs)))))"

definition bop :: "('a \<Rightarrow> 'b \<Rightarrow> 'c) \<Rightarrow> 'a tensor \<Rightarrow> 'b tensor \<Rightarrow> error + 'c tensor" where
  "bop f a b =
     (case broadcast_shapes (shape a) (shape b) of
        None \<Rightarrow> Inl RuntimeError
      | Some sh \<Rightarrow> Inr (zipT f (expand sh a) (expand sh b)))"

text \<open>
  Reshaping goes through the elements in row-major order. \<open>reshape_m1 bs t\<close> is
  \<^verbatim>\<open>t.reshape(bs + (-1,))\<close>: the last size is inferred, which fails when the other
  sizes multiply to 0 or do not divide the number of elements.
\<close>

fun flat :: "'a tensor \<Rightarrow> 'a list" where
  "flat (Sc x) = [x]"
| "flat (Ts inner xs) = concat (map flat xs)"

fun build :: "nat list \<Rightarrow> 'a list \<Rightarrow> 'a tensor" where
  "build [] xs = Sc (hd xs)"
| "build (n # sh) xs =
     Ts sh (map (\<lambda>i. build sh (take (prod_list sh) (drop (i * prod_list sh) xs))) [0..<n])"

definition reshape_m1 :: "nat list \<Rightarrow> 'a tensor \<Rightarrow> error + 'a tensor" where
  "reshape_m1 bs t =
     (let xs = flat t; p = prod_list bs
      in if p = 0 \<or> length xs mod p \<noteq> 0 then Inl RuntimeError
         else Inr (build (bs @ [length xs div p]) xs))"

text \<open>
  Reductions. \<open>samples xs\<close> puts the tensors of a non-empty list (of one shape) side
  by side: its element at an index is the list of their elements at that index. A
  reduction over the first axis applies a function of lists to it; a reduction over
  the last axis applies it to every innermost vector.
\<close>

fun samples :: "'a tensor list \<Rightarrow> 'a list tensor" where
  "samples [] = Sc []"
| "samples [x] = map_tensor (\<lambda>v. [v]) x"
| "samples (x # xs) = zipT (#) x (samples xs)"

fun reduce0 :: "('a list \<Rightarrow> 'b) \<Rightarrow> 'a tensor \<Rightarrow> 'b tensor" where
  "reduce0 g (Sc x) = Sc (g [x])"
| "reduce0 g (Ts inner xs) = (if xs = [] then full inner (g []) else map_tensor g (samples xs))"

fun reduce_last :: "('a list \<Rightarrow> 'b) \<Rightarrow> 'a tensor \<Rightarrow> 'b tensor" where
  "reduce_last g (Sc x) = Sc (g [x])"
| "reduce_last g (Ts inner xs) =
     (if inner = [] then Sc (g (map unSc xs))
      else Ts (butlast inner) (map (reduce_last g) xs))"

text \<open>\<^verbatim>\<open>t[i]\<close> with a Python integer: a negative index counts from the end.\<close>

fun index0 :: "'a tensor \<Rightarrow> int \<Rightarrow> error + 'a tensor" where
  "index0 (Sc x) i = Inl IndexError"
| "index0 (Ts inner xs) i =
     (if 0 \<le> i \<and> i < int (length xs) then Inr (xs ! nat i)
      else if - int (length xs) \<le> i \<and> i < 0 then Inr (xs ! nat (i + int (length xs)))
      else Inl IndexError)"

text \<open>Sequencing of fallible steps.\<close>

fun ebind :: "error + 'a \<Rightarrow> ('a \<Rightarrow> error + 'b) \<Rightarrow> error + 'b" where
  "ebind (Inl e) f = Inl e"
| "ebind (Inr x) f = f x"

fun sequence :: "(error + 'a) list \<Rightarrow> error + 'a list" where
  "sequence [] = Inr []"
| "sequence (r # rs) = ebind r (\<lambda>x. ebind (sequence rs) (\<lambda>xs. Inr (x # xs)))"

section \<open>The metrics (\<^verbatim>\<open>evaluate.py\<close>)\<close>

text \<open>
  Sorting puts NaN last, as \<^verbatim>\<open>torch.sort\<close> does.
\<close>

fun fle :: "fv \<Rightarrow> fv \<Rightarrow> bool" where
  "fle _ NaN = True"
| "fle NaN _ = False"
| "fle NInf _ = True"
| "fle _ NInf = False"
| "fle _ PInf = True"
| "fle PInf _ = False"
| "fle (Fin a) (Fin b) = (a \<le> b)"

fun finsert :: "fv \<Rightarrow> fv list \<Rightarrow> fv list" where
  "finsert x [] = [x]"
| "finsert x (y # ys) = (if fle x y then x # y # ys else y # finsert x ys)"

definition fsort :: "fv list \<Rightarrow> fv list" where
  "fsort xs = foldr finsert xs []"

text \<open>
  \<^verbatim>\<open>Tensor.median(0).values\<close> of the samples at one position: the lower of the two
  middle values when their number is even, NaN when one of them is NaN.
\<close>

definition median :: "fv list \<Rightarrow> fv" where
  "median xs = (if NaN \<in> set xs then NaN else fsort xs ! ((length xs - 1) div 2))"

text \<open>
  \<^verbatim>\<open>pyro.ops.stats.quantile(input, probs, dim=0)\<close> (a library function). For a level
  \<open>u\<close> and \<open>n\<close> samples, with \<open>max_index = n - 1\<close> and \<open>index = u * max_index\<close>, it
  interpolates linearly between the sorted samples at \<open>trunc index\<close> and at the next
  place (clamped to \<open>max_index\<close>); an index outside the samples makes
  \<^verbatim>\<open>index_select\<close> fail, with a runtime error when there is no sample at all.
  \<open>quantile_weights\<close> computes the two places and the weight of the upper one,
  \<open>quantile_at\<close> interpolates the samples at one position.
\<close>

definition quantile_weights :: "real \<Rightarrow> nat \<Rightarrow> error + (nat \<times> nat \<times> real)" where
  "quantile_weights u n =
     (let max_index = int n - 1;
          idx = u * real_of_int max_index;
          lo = (if idx < 0 then \<lceil>idx\<rceil> else \<lfloor>idx\<rfloor>);
          hi = min (lo + 1) max_index
      in if n = 0 then Inl RuntimeError
         else if 0 \<le> lo \<and> lo \<le> max_index \<and> 0 \<le> hi
         then Inr (nat lo, nat hi, idx - real_of_int lo)
         else Inl IndexError)"

fun quantile_at :: "nat \<times> nat \<times> real \<Rightarrow> fv list \<Rightarrow> fv" where
  "quantile_at (lo, hi, w_hi) xs =
     (let sorted = fsort xs
      in fadd (fmul (Fin (1 - w_hi)) (sorted ! lo))
              (fmul (Fin w_hi) (sorted ! hi)))"

fun quantile :: "real list \<Rightarrow> fv tensor \<Rightarrow> error + fv tensor" where
  "quantile us (Sc x) = Inl IndexError"
| "quantile us (Ts inner xs) =
     ebind (sequence (map (\<lambda>u. quantile_weights u (length xs)) us))
       (\<lambda>ws. Inr (Ts inner (map (\<lambda>w. map_tensor (quantile_at w) (samples xs)) ws)))"

text \<open>\<^verbatim>\<open>truth.shape[:-2]\<close>, the batch shape, and \<^verbatim>\<open>x.reshape(truth.shape[:-2] + (-1,)).mean(-1)\<close>.\<close>

definition batch_shape :: "'a tensor \<Rightarrow> nat list" where
  "batch_shape t = take (length (shape t) - 2) (shape t)"

definition mean_over_series :: "fv tensor \<Rightarrow> fv tensor \<Rightarrow> error + fv tensor" where
  "mean_over_series truth x =
     ebind (reshape_m1 (batch_shape truth) x) (\<lambda>r. Inr (reduce_last fmean r))"

type_synonym metric_fn = "fv tensor \<Rightarrow> fv tensor \<Rightarrow> error + fv tensor"

text \<open>
  \<^verbatim>\<open>pred.median(0)\<close> fails on an empty sample axis and is the identity on a scalar.
\<close>

fun median0 :: "fv tensor \<Rightarrow> error + fv tensor" where
  "median0 (Sc x) = Inr (Sc x)"
| "median0 (Ts inner xs) =
     (if xs = [] then Inl IndexError else Inr (reduce0 median (Ts inner xs)))"

definition eval_mae :: metric_fn where
  "eval_mae pred truth =
     ebind (median0 pred) (\<lambda>pred.
     ebind (bop fsub pred truth) (\<lambda>d.
     mean_over_series truth (map_tensor fabs d)))"

definition eval_rmse :: metric_fn where
  "eval_rmse pred truth =
     (let pred = reduce0 fmean pred in
      ebind (bop fsub pred truth) (\<lambda>error.
      ebind (mean_over_series truth (map_tensor (\<lambda>e. fmul e e) error)) (\<lambda>m.
      Inr (map_tensor fsqrt m))))"

text \<open>\<^verbatim>\<open>crps_empirical\<close> is a library function, taken as a parameter.\<close>

definition eval_crps :: "metric_fn \<Rightarrow> metric_fn" where
  "eval_crps crps_empirical pred truth =
     ebind (crps_empirical pred truth) (\<lambda>c. mean_over_series truth c)"

text \<open>
  \<^verbatim>\<open>eval_pl\<close>. The quantile levels \<^verbatim>\<open>M5Data.quantiles\<close> come from \<^verbatim>\<open>util.py\<close> and are a
  parameter \<open>us\<close>. \<open>us_tensor\<close> is \<^verbatim>\<open>us.reshape((-1,) + (1,) * (pred.dim() - 1)).expand(pred.shape)\<close>
  and \<open>pl_weight\<close> is one element of \<^verbatim>\<open>torch.where(error <= 0, -us, 1 - us)\<close>.
\<close>

fun fle0 :: "fv \<Rightarrow> bool" where
  "fle0 (Fin a) = (a \<le> 0)"
| "fle0 NInf = True"
| "fle0 _ = False"

definition pl_weight :: "fv \<Rightarrow> fv \<Rightarrow> fv" where
  "pl_weight error u = (if fle0 error then fneg u else fsub (Fin 1) u)"

definition us_tensor :: "real list \<Rightarrow> nat list \<Rightarrow> fv tensor" where
  "us_tensor us sh = Ts (tl sh) (map (\<lambda>u. full (tl sh) (Fin u)) us)"

definition unsqueeze0 :: "'a tensor \<Rightarrow> 'a tensor" where
  "unsqueeze0 t = Ts (shape t) [t]"

definition eval_pl :: "real list \<Rightarrow> metric_fn" where
  "eval_pl us pred truth =
     ebind (quantile us pred) (\<lambda>pred.
     ebind (bop fsub pred (unsqueeze0 truth)) (\<lambda>error.
     ebind (bop pl_weight error (us_tensor us (shape pred))) (\<lambda>w.
     ebind (bop fmul w error) (\<lambda>error.
     mean_over_series truth (reduce0 fmean error)))))"

definition DEFAULT_METRICS :: "metric_fn \<Rightarrow> real list \<Rightarrow> (string \<times> metric_fn) list" where
  "DEFAULT_METRICS crps_empirical us =
     [(''mae'', eval_mae), (''rmse'', eval_rmse),
      (''crps'', eval_crps crps_empirical), (''pl'', eval_pl us)]"

section \<open>The scale of a metric (\<^verbatim>\<open>_get_metric_scale\<close>)\<close>

text \<open>
  Every operation of \<^verbatim>\<open>_get_metric_scale\<close> works on the last two axes (time, channels)
  and is batched over the axes before them, so the function is modelled on one series,
  a list of \<open>duration\<close> rows of \<open>d\<close> channels, and applied to every series of the tensor.
\<close>

fun cumsum_from :: "fv \<Rightarrow> fv list \<Rightarrow> fv list" where
  "cumsum_from acc [] = []"
| "cumsum_from acc (x # xs) = fadd acc x # cumsum_from (fadd acc x) xs"

definition cumsum :: "fv list \<Rightarrow> fv list" where
  "cumsum xs = cumsum_from (Fin 0) xs"

fun fne0 :: "fv \<Rightarrow> bool" where
  "fne0 (Fin a) = (a \<noteq> 0)"
| "fne0 _ = True"

fun feq0 :: "fv \<Rightarrow> bool" where
  "feq0 (Fin a) = (a = 0)"
| "feq0 _ = False"

text \<open>
  \<^verbatim>\<open>lag1 = train_data - pad(train_data[..., :-1, :], (0, 0, 1, 0))\<close>: the series minus
  itself moved one step later behind a row of zeros.
\<close>

definition lag1 :: "nat \<Rightarrow> fv list list \<Rightarrow> fv list list" where
  "lag1 d train_data =
     map (\<lambda>(row, prev). map (\<lambda>(x, y). fsub x y) (zip row prev))
       (zip train_data (replicate d (Fin 0) # butlast train_data))"

text \<open>\<^verbatim>\<open>(train_data.sum(-1, keepdims=True).cumsum(-2) != 0).sum(-2, keepdims=True)\<close>\<close>

definition active_time :: "fv list list \<Rightarrow> nat" where
  "active_time train_data = length (filter fne0 (cumsum (map fsum train_data)))"

text \<open>
  \<^verbatim>\<open>train_data.gather(-2, index)\<close> with the one row index \<open>i\<close> for every channel: it
  fails when there is a channel and the index is not below the duration.
\<close>

definition gather_row :: "nat \<Rightarrow> fv list list \<Rightarrow> nat \<Rightarrow> error + fv list" where
  "gather_row d train_data i =
     (if d = 0 then Inr []
      else if i < length train_data then Inr (train_data ! i)
      else Inl RuntimeError)"

text \<open>\<^verbatim>\<open>x.sum(-2)\<close> of a series: the sum over time of every channel.\<close>

definition sum_time :: "nat \<Rightarrow> fv list list \<Rightarrow> fv list" where
  "sum_time d rows = map (\<lambda>j. fsum (map (\<lambda>row. row ! j) rows)) [0..<d]"

text \<open>\<^verbatim>\<open>x.pow(norm)\<close> and \<^verbatim>\<open>x.pow(1 / norm)\<close> for the two values 1 and 2 of \<^verbatim>\<open>norm\<close>.\<close>

definition pow_norm :: "nat \<Rightarrow> fv \<Rightarrow> fv" where
  "pow_norm p x = (if p = 2 then fmul x x else x)"

definition root_norm :: "nat \<Rightarrow> fv \<Rightarrow> fv" where
  "root_norm p x = (if p = 2 then fsqrt x else x)"

definition metric_norm :: "string \<Rightarrow> nat" where
  "metric_norm metric = (if metric = ''rmse'' then 2 else 1)"

definition metric_scale_series :: "string \<Rightarrow> nat \<Rightarrow> fv list list \<Rightarrow> error + fv" where
  "metric_scale_series metric d train_data =
     (let duration = length train_data;
          lag = lag1 d train_data;
          active = active_time train_data
      in ebind (gather_row d train_data (duration - active)) (\<lambda>start_value.
         let p = metric_norm metric;
             lag1_norm = map (\<lambda>(a, b). fsub a b)
               (zip (sum_time d (map (map (\<lambda>x. pow_norm p (fabs x))) lag))
                    (map (\<lambda>x. pow_norm p (fabs x)) start_value))
         in Inr (root_norm p
                   (fdiv (fmean lag1_norm) (Fin (real_of_int (int active - 1)))))))"

text \<open>The rows of a matrix given by its list of row tensors.\<close>

fun children :: "'a tensor \<Rightarrow> 'a tensor list" where
  "children (Sc x) = []"
| "children (Ts inner xs) = xs"

definition rows_of :: "'a tensor list \<Rightarrow> 'a list list" where
  "rows_of xs = map (\<lambda>r. map unSc (children r)) xs"

fun map_series :: "(nat \<Rightarrow> 'a list list \<Rightarrow> error + 'b) \<Rightarrow> 'a tensor \<Rightarrow> error + 'b tensor" where
  "map_series f (Sc x) = Inl IndexError"
| "map_series f (Ts inner xs) =
     (if length inner = 1 then ebind (f (hd inner) (rows_of xs)) (\<lambda>v. Inr (Sc v))
      else ebind (sequence (map (map_series f) xs))
             (\<lambda>ys. Inr (Ts (butlast (butlast inner)) ys)))"

text \<open>\<^verbatim>\<open>duration = train_data.shape[-2]\<close> fails on a tensor of fewer than two axes.\<close>

definition get_metric_scale :: "string \<Rightarrow> fv tensor \<Rightarrow> error + fv tensor" where
  "get_metric_scale metric train_data =
     (if length (shape train_data) < 2 then Inl IndexError
      else map_series (metric_scale_series metric) train_data)"

text \<open>\<^verbatim>\<open>(weight * value / scale).sum().cpu().item()\<close>\<close>

definition eval_weighted_scale ::
  "string \<Rightarrow> fv tensor \<Rightarrow> fv tensor \<Rightarrow> fv tensor \<Rightarrow> error + fv" where
  "eval_weighted_scale metric val train_data weight =
     ebind (get_metric_scale metric train_data) (\<lambda>scale.
     ebind (bop fmul weight val) (\<lambda>wv.
     ebind (bop fdiv wv scale) (\<lambda>r.
     Inr (fsum (flat r)))))"

section \<open>The backtest (\<^verbatim>\<open>m5_backtest\<close>)\<close>

text \<open>
  A window is the dictionary \<^verbatim>\<open>backtest\<close> returns for one train/test split: its
  boundaries and, under the name of each metric, the value of the metric. The entries
  are kept as a list of keys and values without repeated keys; a number stored in it
  is a tensor without axes.
\<close>

fun dict_set :: "'k \<Rightarrow> 'v \<Rightarrow> ('k \<times> 'v) list \<Rightarrow> ('k \<times> 'v) list" where
  "dict_set k v [] = [(k, v)]"
| "dict_set k v ((k', v') # kvs) =
     (if k' = k then (k, v) # kvs else (k', v') # dict_set k v kvs)"

record window =
  t0 :: int
  t1 :: int
  t2 :: int
  entries :: "(string \<times> fv tensor) list"

text \<open>The keyword arguments \<^verbatim>\<open>m5_backtest\<close> reads; the others are the record's extension.\<close>

record kwargs =
  metrics :: "(string \<times> metric_fn) list option"
  min_train_window :: "int option"

text \<open>
  The collaborators that are not part of \<^verbatim>\<open>evaluate.py\<close>: \<^verbatim>\<open>backtest\<close> of the
  forecasting library (which trains, forecasts and evaluates the metrics on every
  window, and may fail), \<^verbatim>\<open>crps_empirical\<close>, and the quantile levels of \<^verbatim>\<open>M5Data\<close>.
\<close>

record 'k ext =
  backtest :: "fv tensor \<Rightarrow> 'k kwargs_scheme \<Rightarrow> error + window list"
  crps_empirical :: metric_fn
  quantiles :: "real list"

datatype log_msg = Min_train_window_set int

text \<open>
  \<^verbatim>\<open>weight / weight.reshape((-1, data.shape[-2])).sum(0)\<close>, after the default and the
  assertion on the shape.
\<close>

definition reshape_rows :: "nat \<Rightarrow> 'a tensor \<Rightarrow> error + 'a tensor" where
  "reshape_rows n t =
     (let xs = flat t
      in if n = 0 \<or> length xs mod n \<noteq> 0 then Inl RuntimeError
         else Inr (build [length xs div n, n] xs))"

definition normalize_weight :: "fv tensor \<Rightarrow> fv tensor option \<Rightarrow> error + fv tensor" where
  "normalize_weight data weight =
     (let weight = (case weight of None \<Rightarrow> full (butlast (shape data)) (Fin 1) | Some w \<Rightarrow> w)
      in if shape weight \<noteq> butlast (shape data) then Inl AssertionError
         else if length (shape data) < 2 then Inl IndexError
         else ebind (reshape_rows (shape data ! (length (shape data) - 2)) weight) (\<lambda>r.
              bop fdiv weight (reduce0 fsum r)))"

text \<open>
  \<^verbatim>\<open>(data.sum(-1).cumsum(-1) == 0).sum(-1).max().cpu().item() + 2\<close>: per series,
  the number of time steps at which the running sum of the channel sums is zero; the
  maximum of an empty tensor fails.
\<close>

definition zero_time :: "fv list list \<Rightarrow> nat" where
  "zero_time series = length (filter feq0 (cumsum (map fsum series)))"

fun series_of :: "'a tensor \<Rightarrow> 'a list list list" where
  "series_of (Sc x) = []"
| "series_of (Ts inner xs) =
     (if length inner = 1 then [rows_of xs] else concat (map series_of xs))"

definition required_train_window :: "fv tensor \<Rightarrow> error + int" where
  "required_train_window data =
     (let counts = map zero_time (series_of data)
      in if counts = [] then Inl RuntimeError
         else Inr (int (foldr max counts 0) + 2))"

definition set_min_train_window ::
  "int \<Rightarrow> 'k kwargs_scheme \<Rightarrow> 'k kwargs_scheme \<times> log_msg list" where
  "set_min_train_window m kw =
     (if (case min_train_window kw of None \<Rightarrow> 1 | Some v \<Rightarrow> v) < m
      then (kw\<lparr>min_train_window := Some m\<rparr>, [Min_train_window_set m])
      else (kw, []))"

text \<open>\<^verbatim>\<open>data[..., :k, :]\<close>: the first \<open>k\<close> time steps, counted from the end when \<open>k < 0\<close>.\<close>

definition py_take :: "int \<Rightarrow> 'a list \<Rightarrow> 'a list" where
  "py_take k xs = (if k < 0 then take (nat (int (length xs) + k)) xs else take (nat k) xs)"

definition slice_shape :: "int \<Rightarrow> nat list \<Rightarrow> nat list" where
  "slice_shape k sh =
     sh[length sh - 2 := length (py_take k (replicate (sh ! (length sh - 2)) ()))]"

fun slice_time :: "int \<Rightarrow> 'a tensor \<Rightarrow> 'a tensor" where
  "slice_time k (Sc x) = Sc x"
| "slice_time k (Ts inner xs) =
     (if length inner = 1 then Ts inner (py_take k xs)
      else Ts (slice_shape k inner) (map (slice_time k) xs))"

text \<open>
  The loop over the windows. The variable \<^verbatim>\<open>weight\<close> is assigned in the loop
  (\<^verbatim>\<open>weight = weight[window["t1"] - 1]\<close>), so each window passes its value on to the
  next one.
\<close>

fun ws_metrics ::
  "string list \<Rightarrow> fv tensor \<Rightarrow> fv tensor \<Rightarrow> window \<Rightarrow> error + window" where
  "ws_metrics [] train_data weight w = Inr w"
| "ws_metrics (metric # ms) train_data weight w =
     (case map_of (entries w) metric of
        None \<Rightarrow> Inl KeyError
      | Some v \<Rightarrow>
          ebind (eval_weighted_scale metric v train_data weight) (\<lambda>r.
          ws_metrics ms train_data weight
            (w\<lparr>entries := dict_set (''ws_'' @ metric) (Sc r) (entries w)\<rparr>)))"

fun window_loop ::
  "fv tensor \<Rightarrow> string list \<Rightarrow> fv tensor \<Rightarrow> window list \<Rightarrow> error + window list" where
  "window_loop data names weight [] = Inr []"
| "window_loop data names weight (w # ws) =
     (let train_data = slice_time (t1 w) data
      in ebind (index0 weight (t1 w - 1)) (\<lambda>weight.
         ebind (ws_metrics names train_data weight w) (\<lambda>w'.
         ebind (window_loop data names weight ws) (\<lambda>ws'.
         Inr (w' # ws')))))"

text \<open>
  \<^verbatim>\<open>m5_backtest\<close> returns the diagnostics it has logged and either the windows or the
  error that stopped it.
\<close>

definition m5_backtest ::
  "'k ext \<Rightarrow> fv tensor \<Rightarrow> fv tensor option \<Rightarrow> 'k kwargs_scheme
     \<Rightarrow> log_msg list \<times> (error + window list)" where
  "m5_backtest ext data weight kw =
     (case normalize_weight data weight of
        Inl e \<Rightarrow> ([], Inl e)
      | Inr weight \<Rightarrow>
          (let kw = (if metrics kw = None
                     then kw\<lparr>metrics := Some (DEFAULT_METRICS (crps_empirical ext) (quantiles ext))\<rparr>
                     else kw)
           in case required_train_window data of
                Inl e \<Rightarrow> ([], Inl e)
              | Inr m \<Rightarrow>
                  (let (kw, log) = set_min_train_window m kw
                   in (log,
                       ebind (backtest ext data kw) (\<lambda>windows.
                       window_loop data (map fst (the (metrics kw))) weight windows)))))"

section \<open>The quantities of the specification\<close>

text \<open>
  The definitions of this section follow the words of the specification, not the code;
  the theorems compare them with the code.

  The series of a tensor at a list of batch indices, as its list of rows.
\<close>

definition series_at :: "'a tensor \<Rightarrow> nat list \<Rightarrow> 'a list list" where
  "series_at t b = rows_of (children (subt t b))"

text \<open>
  ``The length of the leading run of time steps whose response is entirely zero across
  all channels'', and its maximum over the series plus the margin of 2.
\<close>

definition leading_zero_run :: "fv list list \<Rightarrow> nat" where
  "leading_zero_run series = length (takeWhile (list_all (\<lambda>x. x = Fin 0)) series)"

definition spec_train_window :: "fv tensor \<Rightarrow> int" where
  "spec_train_window data = int (foldr max (map leading_zero_run (series_of data)) 0) + 2"

text \<open>
  ``The first index at which the cumulative summed response is non-zero'' (the duration
  when there is none), the lag-1 difference at a time step and channel ``with one
  implicit zero step padded before the window'', and the scale: the sum over time of
  \<open>|lag-1 difference|^p\<close> minus \<open>|value at the first active time step|^p\<close>, averaged
  over the channels, divided by \<open>active_time - 1\<close>, to the power \<open>1 / p\<close>.
\<close>

definition first_active :: "fv list list \<Rightarrow> nat" where
  "first_active series = length (takeWhile feq0 (cumsum (map fsum series)))"

definition lag_diff :: "fv list list \<Rightarrow> nat \<Rightarrow> nat \<Rightarrow> fv" where
  "lag_diff series t j =
     fsub (series ! t ! j) (if t = 0 then Fin 0 else series ! (t - 1) ! j)"

definition spec_scale :: "string \<Rightarrow> nat \<Rightarrow> fv list list \<Rightarrow> fv" where
  "spec_scale metric d series =
     (let p = (if metric = ''rmse'' then 2 else 1);
          duration = length series;
          k = first_active series;
          active = duration - k;
          per_channel = (\<lambda>j.
            fsub (fsum (map (\<lambda>t. pow_norm p (fabs (lag_diff series t j))) [0..<duration]))
                 (pow_norm p (fabs (series ! k ! j))))
      in root_norm p (fdiv (fmean (map per_channel [0..<d])) (Fin (real active - 1))))"

text \<open>
  ``The empirical quantile \<open>q\<close> of the prediction ensemble'' at one position (the
  interpolation of the library), and the signed error \<open>e\<close> weighted ``by \<open>-q\<close> where the
  error is \<open>\<le> 0\<close> and by \<open>1 - q\<close> otherwise''.
\<close>

definition empirical_quantile :: "real \<Rightarrow> fv list \<Rightarrow> fv" where
  "empirical_quantile q xs =
     (case quantile_weights q (length xs) of Inr w \<Rightarrow> quantile_at w xs | Inl e \<Rightarrow> NaN)"

definition pinball :: "real \<Rightarrow> real \<Rightarrow> real" where
  "pinball q e = (if e \<le> 0 then - q else 1 - q) * e"


text \<open>
  Once the cumulative summed response of a series is non-zero, it stays non-zero to the
  end of the window. Series without negative values are of this kind.
\<close>

definition stays_active :: "fv list list \<Rightarrow> bool" where
  "stays_active series = list_all fne0 (dropWhile feq0 (cumsum (map fsum series)))"

section \<open>Finite values\<close>

lemma is_fin_conv: "is_fin x \<longleftrightarrow> x = Fin (rval x)"
  by (cases x) auto

lemma all_fin_conv: "(\<forall>x\<in>set xs. is_fin x) \<longleftrightarrow> xs = map Fin (map rval xs)"
  by (induction xs) (auto simp: is_fin_conv)

lemma fsum_Fin: "fsum (map Fin rs) = Fin (sum_list rs)"
  by (induction rs) (auto simp: fsum_def)

lemma fsum_fin: "\<forall>x\<in>set xs. is_fin x \<Longrightarrow> fsum xs = Fin (sum_list (map rval xs))"
proof -
  assume "\<forall>x\<in>set xs. is_fin x"
  then have "xs = map Fin (map rval xs)" by (simp only: all_fin_conv)
  then have "fsum xs = fsum (map Fin (map rval xs))" by simp
  then show ?thesis by (simp only: fsum_Fin)
qed

lemma sum_list_divide: "sum_list (map (\<lambda>a. a / c) rs) = sum_list rs / (c::real)"
  by (induction rs) (auto simp: add_divide_distrib)

lemma sum_list_mult_right: "sum_list (map (\<lambda>a. a * c) rs) = sum_list rs * (c::real)"
  by (induction rs) (auto simp: distrib_right)

section \<open>Shapes and elements of tensors\<close>

lemma has_shape_shape: "has_shape sh t \<Longrightarrow> shape t = sh"
  by (cases t; cases sh) auto

lemma has_shape_Nil: "has_shape [] t \<longleftrightarrow> (\<exists>x. t = Sc x)"
  by (cases t) auto

lemma has_shape_Cons:
  "has_shape (n # sh) t \<longleftrightarrow> (\<exists>xs. t = Ts sh xs \<and> length xs = n \<and> (\<forall>x\<in>set xs. has_shape sh x))"
  by (cases t) auto

lemma valid_Nil: "valid [] p \<longleftrightarrow> p = []"
  by (simp add: valid_def)

lemma valid_Cons: "valid (n # sh) p \<longleftrightarrow> (\<exists>i q. p = i # q \<and> i < n \<and> valid sh q)"
  by (cases p) (auto simp: valid_def)

lemma valid_append: "valid B b \<Longrightarrow> valid R r \<Longrightarrow> valid (B @ R) (b @ r)"
  by (simp add: valid_def list_all2_appendI)

lemma has_shape_subt: "has_shape (B @ R) t \<Longrightarrow> valid B b \<Longrightarrow> has_shape R (subt t b)"
proof (induction B arbitrary: t b)
  case Nil
  then show ?case by (simp add: valid_Nil)
next
  case (Cons n B)
  then show ?case by (auto simp: valid_Cons has_shape_Cons)
qed

lemma subt_append: "has_shape (B @ R) t \<Longrightarrow> valid B b \<Longrightarrow> subt t (b @ r) = subt (subt t b) r"
proof (induction B arbitrary: t b)
  case Nil
  then show ?case by (simp add: valid_Nil)
next
  case (Cons n B)
  then show ?case by (auto simp: valid_Cons has_shape_Cons)
qed

lemma has_shape_map: "has_shape sh t \<Longrightarrow> has_shape sh (map_tensor f t)"
proof (induction sh arbitrary: t)
  case Nil
  then show ?case by (auto simp: has_shape_Nil)
next
  case (Cons n sh)
  then show ?case by (auto simp: has_shape_Cons)
qed

lemma subt_map:
  "has_shape (B @ R) t \<Longrightarrow> valid B b \<Longrightarrow> subt (map_tensor f t) b = map_tensor f (subt t b)"
proof (induction B arbitrary: t b)
  case Nil
  then show ?case by (simp add: valid_Nil)
next
  case (Cons n B)
  then show ?case by (auto simp: valid_Cons has_shape_Cons)
qed

lemma has_shape_zipT:
  "has_shape sh a \<Longrightarrow> has_shape sh c \<Longrightarrow> has_shape sh (zipT f a c)"
proof (induction sh arbitrary: a c)
  case Nil
  then show ?case by (auto simp: has_shape_Nil)
next
  case (Cons n sh)
  from Cons.prems obtain xs ys where a: "a = Ts sh xs" "length xs = n" "\<forall>x\<in>set xs. has_shape sh x"
    and c: "c = Ts sh ys" "length ys = n" "\<forall>y\<in>set ys. has_shape sh y"
    by (auto simp: has_shape_Cons)
  have "has_shape sh (zipT f x y)" if "(x, y) \<in> set (zip xs ys)" for x y
    using that a(3) c(3) Cons.IH by (meson set_zip_leftD set_zip_rightD)
  then show ?case using a c by auto
qed

lemma subt_zipT:
  "has_shape (B @ R) a \<Longrightarrow> has_shape (B @ R) c \<Longrightarrow> valid B b
   \<Longrightarrow> subt (zipT f a c) b = zipT f (subt a b) (subt c b)"
proof (induction B arbitrary: a c b)
  case Nil
  then show ?case by (simp add: valid_Nil)
next
  case (Cons n B)
  then show ?case by (auto simp: valid_Cons has_shape_Cons)
qed

lemma has_shape_samples:
  "xs \<noteq> [] \<Longrightarrow> \<forall>x\<in>set xs. has_shape sh x \<Longrightarrow> has_shape sh (samples xs)"
proof (induction xs rule: samples.induct)
  case 1
  then show ?case by simp
next
  case (2 x)
  then show ?case by (simp add: has_shape_map)
next
  case (3 x v va)
  then show ?case by (simp add: has_shape_zipT)
qed

lemma subt_samples:
  "xs \<noteq> [] \<Longrightarrow> \<forall>x\<in>set xs. has_shape (B @ R) x \<Longrightarrow> valid B b
   \<Longrightarrow> subt (samples xs) b = samples (map (\<lambda>x. subt x b) xs)"
proof (induction xs rule: samples.induct)
  case 1
  then show ?case by simp
next
  case (2 x)
  then show ?case by (simp add: subt_map)
next
  case (3 x v va)
  then have "has_shape (B @ R) (samples (v # va))"
    by (intro has_shape_samples) auto
  then have "subt (zipT (#) x (samples (v # va))) b
      = zipT (#) (subt x b) (subt (samples (v # va)) b)"
    using 3 by (intro subt_zipT [where R = R]) auto
  then show ?case using 3 by simp
qed

lemma samples_scalars: "vs \<noteq> [] \<Longrightarrow> samples (map Sc vs) = Sc vs"
proof (induction vs)
  case Nil
  then show ?case by simp
next
  case (Cons v vs)
  then show ?case by (cases vs) auto
qed

lemma sum_list_const: "\<forall>x\<in>set xs. f x = (m::nat) \<Longrightarrow> sum_list (map f xs) = length xs * m"
  by (induction xs) auto

lemma length_flat: "has_shape sh t \<Longrightarrow> length (flat t) = prod_list sh"
proof (induction sh arbitrary: t)
  case Nil
  then show ?case by (auto simp: has_shape_Nil)
next
  case (Cons n sh)
  then obtain xs where t: "t = Ts sh xs" "length xs = n" "\<forall>x\<in>set xs. has_shape sh x"
    by (auto simp: has_shape_Cons)
  then have "sum_list (map (\<lambda>x. length (flat x)) xs) = length xs * prod_list sh"
    using Cons.IH by (intro sum_list_const) auto
  then show ?case using t by (simp add: length_concat comp_def)
qed

lemma chunk_concat:
  "\<forall>x\<in>set xss. length x = m \<Longrightarrow> i < length xss
   \<Longrightarrow> take m (drop (i * m) (concat xss)) = xss ! i"
proof (induction xss arbitrary: i)
  case Nil
  then show ?case by simp
next
  case (Cons x xss)
  show ?case
  proof (cases i)
    case 0
    then show ?thesis using Cons.prems by simp
  next
    case (Suc j)
    then show ?thesis using Cons by simp
  qed
qed

lemma bshape_rev_same: "bshape_rev xs xs = Some xs"
  by (induction xs) auto

lemma broadcast_shapes_same: "broadcast_shapes sh sh = Some sh"
  by (simp add: broadcast_shapes_def bshape_rev_same)

lemma expand_same: "has_shape sh t \<Longrightarrow> expand sh t = t"
proof (induction sh arbitrary: t)
  case Nil
  then show ?case by simp
next
  case (Cons n sh)
  then obtain xs where t: "t = Ts sh xs" "length xs = n" "\<forall>x\<in>set xs. has_shape sh x"
    by (auto simp: has_shape_Cons)
  then have "map (expand sh) xs = xs"
    using Cons.IH by (intro map_idI) auto
  then show ?case using t by simp
qed

lemma bop_same:
  "has_shape sh a \<Longrightarrow> has_shape sh c \<Longrightarrow> bop f a c = Inr (zipT f a c)"
  by (simp add: bop_def has_shape_shape broadcast_shapes_same expand_same)

lemma map_nth_len: "length xs = m \<Longrightarrow> map ((!) xs) [0..<m] = xs"
  using map_nth [of xs] by auto

lemma reduce_last_vec: "reduce_last g (vec xs) = Sc (g xs)"
  by (simp add: vec_def comp_def)

lemma build_vector:
  "length xs = m \<Longrightarrow> build [m] xs = vec xs"
proof -
  assume m: "length xs = m"
  have "map (\<lambda>i. Sc (hd (take (Suc 0) (drop i xs)))) [0..<m] = map (\<lambda>i. Sc (xs ! i)) [0..<m]"
    using m by (intro map_cong) (auto simp: hd_drop_conv_nth)
  also have "\<dots> = map Sc (map (\<lambda>i. xs ! i) [0..<m])" by simp
  also have "\<dots> = map Sc xs" using m by (simp add: map_nth_len)
  finally show ?thesis by (simp add: vec_def)
qed

lemma build_flat:
  assumes "has_shape (B @ R) t"
  shows "build (B @ [prod_list R]) (flat t)
       = (if B = [] then vec (flat t)
          else Ts (tl B @ [prod_list R])
                 (map (\<lambda>x. build (tl B @ [prod_list R]) (flat x)) (children t)))"
proof (cases B)
  case Nil
  then show ?thesis using assms by (simp add: build_vector length_flat del: build.simps)
next
  case (Cons n B')
  then obtain xs where t: "t = Ts (B' @ R) xs" "length xs = n" "\<forall>x\<in>set xs. has_shape (B' @ R) x"
    using assms by (auto simp: has_shape_Cons)
  let ?M = "prod_list (B' @ [prod_list R])"
  have len: "\<forall>x\<in>set (map flat xs). length x = ?M"
    using t by (auto simp: length_flat)
  have "map (\<lambda>i. build (B' @ [prod_list R]) (take ?M (drop (i * ?M) (flat t)))) [0..<n]
      = map (\<lambda>i. build (B' @ [prod_list R]) (flat (xs ! i))) [0..<n]"
  proof (rule map_cong [OF refl])
    fix i assume "i \<in> set [0..<n]"
    then have i: "i < length (map flat xs)" using t by simp
    have "take ?M (drop (i * ?M) (concat (map flat xs))) = map flat xs ! i"
      by (rule chunk_concat [OF len i])
    then show "build (B' @ [prod_list R]) (take ?M (drop (i * ?M) (flat t)))
        = build (B' @ [prod_list R]) (flat (xs ! i))"
      using t i by simp
  qed
  also have "\<dots> = map (\<lambda>x. build (B' @ [prod_list R]) (flat x)) (map (\<lambda>i. xs ! i) [0..<n])"
    by simp
  also have "\<dots> = map (\<lambda>x. build (B' @ [prod_list R]) (flat x)) xs"
    using t by (simp add: map_nth_len)
  finally show ?thesis using Cons t by simp
qed

lemma reduce_last_build_Cons:
  assumes "t = Ts (B @ R) xs" "length xs = n" "\<forall>x\<in>set xs. has_shape (B @ R) x"
  shows "reduce_last g (build ((n # B) @ [prod_list R]) (flat t))
       = Ts B (map (\<lambda>x. reduce_last g (build (B @ [prod_list R]) (flat x))) xs)"
proof -
  have "has_shape ((n # B) @ R) t" using assms by simp
  from build_flat [OF this]
  have "build ((n # B) @ [prod_list R]) (flat t)
      = Ts (B @ [prod_list R]) (map (\<lambda>x. build (B @ [prod_list R]) (flat x)) xs)"
    using assms(1) by (simp del: build.simps flat.simps)
  then show ?thesis by (simp add: comp_def del: build.simps flat.simps)
qed

lemma reduce_last_build:
  assumes "has_shape (B @ R) t"
  shows "has_shape B (reduce_last g (build (B @ [prod_list R]) (flat t)))"
  using assms
proof (induction B arbitrary: t)
  case Nil
  then show ?case by (simp add: build_vector length_flat reduce_last_vec del: build.simps)
next
  case (Cons n B)
  then obtain xs where t: "t = Ts (B @ R) xs" "length xs = n" "\<forall>x\<in>set xs. has_shape (B @ R) x"
    by (auto simp: has_shape_Cons)
  show ?case
    unfolding reduce_last_build_Cons [OF t] using t Cons.IH by simp
qed

lemma subt_reduce_last_build:
  assumes "has_shape (B @ R) t" "valid B b"
  shows "subt (reduce_last g (build (B @ [prod_list R]) (flat t))) b = Sc (g (flat (subt t b)))"
  using assms
proof (induction B arbitrary: t b)
  case Nil
  then show ?case
    by (simp add: build_vector length_flat reduce_last_vec valid_Nil del: build.simps)
next
  case (Cons n B)
  then obtain xs where t: "t = Ts (B @ R) xs" "length xs = n" "\<forall>x\<in>set xs. has_shape (B @ R) x"
    by (auto simp: has_shape_Cons)
  from Cons.prems obtain i q where b: "b = i # q" "i < n" "valid B q"
    by (auto simp: valid_Cons)
  show ?case
    unfolding reduce_last_build_Cons [OF t] using t b Cons.IH by simp
qed

lemma has_shape_full: "has_shape sh (full sh v)"
  by (induction sh) auto

lemma has_shape_reduce0:
  "has_shape (n # sh) t \<Longrightarrow> has_shape sh (reduce0 g t)"
  by (auto simp: has_shape_Cons has_shape_full has_shape_map has_shape_samples)

lemma ebind_eq_Inr: "ebind r f = Inr y \<longleftrightarrow> (\<exists>x. r = Inr x \<and> f x = Inr y)"
  by (cases r) auto

lemma shape_map [simp]: "shape (map_tensor f t) = shape t"
  by (cases t) auto

lemma flat_map: "flat (map_tensor f t) = map f (flat t)"
  by (induction t) (auto simp: map_concat comp_def intro!: arg_cong [where f = concat])

lemma zipT_map:
  assumes "\<And>x y. h (f x) (g y) = k (h' x y)"
  shows "zipT h (map_tensor f a) (map_tensor g c) = map_tensor k (zipT h' a c)"
  using assms
proof (induction h' a c rule: zipT.induct)
  case (2 h' inner xs inner' ys)
  have "map (\<lambda>(x, y). zipT h x y) (zip (map (map_tensor f) xs) (map (map_tensor g) ys))
      = map (\<lambda>(x, y). zipT h (map_tensor f x) (map_tensor g y)) (zip xs ys)"
    by (simp add: zip_map_map case_prod_unfold)
  also have "\<dots> = map (\<lambda>(x, y). map_tensor k (zipT h' x y)) (zip xs ys)"
    using 2 by (intro map_cong) auto
  finally show ?case by (simp add: comp_def case_prod_unfold)
qed simp_all

lemma samples_map: "samples (map (map_tensor f) xs) = map_tensor (map f) (samples xs)"
proof (induction xs rule: samples.induct)
  case 1
  then show ?case by simp
next
  case (2 x)
  then show ?case by (simp add: tensor.map_comp comp_def)
next
  case (3 x v va)
  have "zipT (#) (map_tensor f x) (map_tensor (map f) (samples (v # va)))
      = map_tensor (map f) (zipT (#) x (samples (v # va)))"
    by (rule zipT_map) simp
  then show ?case using 3 by simp
qed

lemma map_full: "map_tensor f (full sh v) = full sh (f v)"
  by (induction sh) auto

lemma expand_map: "expand sh (map_tensor f t) = map_tensor f (expand sh t)"
proof (induction sh arbitrary: t)
  case Nil
  then show ?case by simp
next
  case (Cons n sh)
  show ?case
  proof (cases "length (shape t) < Suc (length sh)")
    case True
    then show ?thesis by (simp add: Cons.IH)
  next
    case False
    then obtain inner xs where t: "t = Ts inner xs" by (cases t) auto
    show ?thesis
    proof (cases xs)
      case Nil
      then show ?thesis using t False by simp
    next
      case (Cons y ys)
      then show ?thesis using t False Cons.IH by (cases ys) auto
    qed
  qed
qed

lemma has_shape_build: "length xs = prod_list sh \<Longrightarrow> has_shape sh (build sh xs)"
proof (induction sh arbitrary: xs)
  case Nil
  then show ?case by simp
next
  case (Cons n sh)
  have "length (take (prod_list sh) (drop (i * prod_list sh) xs)) = prod_list sh" if "i < n" for i
  proof -
    have "Suc i * prod_list sh \<le> n * prod_list sh" using that by (intro mult_le_mono1) simp
    then show ?thesis using Cons.prems by simp
  qed
  then show ?case using Cons.IH by simp
qed

lemma build_map:
  "length xs = prod_list sh \<Longrightarrow> build sh (map f xs) = map_tensor f (build sh xs)"
proof (induction sh arbitrary: xs)
  case Nil
  then show ?case by (cases xs) auto
next
  case (Cons n sh)
  have "length (take (prod_list sh) (drop (i * prod_list sh) xs)) = prod_list sh" if "i < n" for i
  proof -
    have "Suc i * prod_list sh \<le> n * prod_list sh" using that by (intro mult_le_mono1) simp
    then show ?thesis using Cons.prems by simp
  qed
  then show ?case using Cons.IH by (simp add: take_map drop_map)
qed

section \<open>Mass preservation of the top-down split\<close>

lemma proportion_fin:
  assumes fin: "\<forall>row\<in>set sales. \<forall>x\<in>set row. is_fin x"
    and tot: "grand_total sales \<noteq> Fin 0"
  shows "proportion sales =
           map (\<lambda>row. Fin (sum_list (map rval row) / rval (grand_total sales)))
             (sales_last28 sales)"
    and "grand_total sales =
           Fin (sum_list (map (\<lambda>row. sum_list (map rval row)) (sales_last28 sales)))"
proof -
  have fin28: "\<forall>row\<in>set (sales_last28 sales). \<forall>x\<in>set row. is_fin x"
    using fin by (auto simp: sales_last28_def dest: in_set_dropD)
  have rows: "map fsum (sales_last28 sales) =
      map Fin (map (\<lambda>row. sum_list (map rval row)) (sales_last28 sales))"
    using fin28 by (simp add: fsum_fin)
  show gt: "grand_total sales =
           Fin (sum_list (map (\<lambda>row. sum_list (map rval row)) (sales_last28 sales)))"
    unfolding grand_total_def rows fsum_Fin ..
  have nz: "rval (grand_total sales) \<noteq> 0"
    using tot gt by auto
  have "proportion sales =
      map (\<lambda>row. fdiv (fsum row) (grand_total sales)) (sales_last28 sales)"
    by (simp add: proportion_def grand_total_def Let_def)
  also have "\<dots> = map (\<lambda>row. Fin (sum_list (map rval row) / rval (grand_total sales)))
             (sales_last28 sales)"
  proof (rule map_cong [OF refl])
    fix row assume "row \<in> set (sales_last28 sales)"
    then have "fsum row = Fin (sum_list (map rval row))"
      using fin28 by (simp add: fsum_fin)
    moreover have "grand_total sales = Fin (rval (grand_total sales))"
      using gt by simp
    ultimately show "fdiv (fsum row) (grand_total sales) =
        Fin (sum_list (map rval row) / rval (grand_total sales))"
      using nz by (metis fdiv.simps(1))
  qed
  finally show "proportion sales =
           map (\<lambda>row. Fin (sum_list (map rval row) / rval (grand_total sales)))
             (sales_last28 sales)" .
qed

text \<open>
  C8. When every sale is a finite number and the grand total of the trailing 28 periods
  is not zero, the proportions sum to 1 over the bottom level, and at every time step
  \<open>t\<close> of a finite aggregate forecast the disaggregated forecasts
  \<open>proportion[i] * pred[t]\<close>, summed over the series \<open>i\<close>, give back \<open>pred[t]\<close>.
\<close>

theorem top_down_preserves_mass:
  assumes fin: "\<forall>row\<in>set sales. \<forall>x\<in>set row. is_fin x"
    and pfin: "\<forall>x\<in>set pred. is_fin x"
    and tot: "grand_total sales \<noteq> Fin 0"
  shows "fsum (proportion sales) = Fin 1
       \<and> (\<forall>t<length pred. fsum (map (\<lambda>row. row ! t) (prediction sales pred)) = pred ! t)"
proof -
  let ?g = "rval (grand_total sales)"
  let ?rs = "map (\<lambda>row. sum_list (map rval row)) (sales_last28 sales)"
  note p = proportion_fin [OF fin tot]
  have g: "?g = sum_list ?rs" using p(2) by simp
  have nz: "?g \<noteq> 0" using tot p(2) by auto
  have pr: "proportion sales = map Fin (map (\<lambda>a. a / ?g) ?rs)"
    by (simp add: p(1) comp_def)
  have one: "sum_list (map (\<lambda>a. a / ?g) ?rs) = 1"
  proof -
    have "sum_list (map (\<lambda>a. a / ?g) ?rs) = sum_list ?rs / ?g"
      by (rule sum_list_divide)
    then show ?thesis using nz g by simp
  qed
  have s1: "fsum (proportion sales) = Fin 1"
    unfolding pr fsum_Fin one ..
  have s2: "fsum (map (\<lambda>row. row ! t) (prediction sales pred)) = pred ! t"
    if t: "t < length pred" for t
  proof -
    have pt: "pred ! t = Fin (rval (pred ! t))"
      using pfin t by (simp add: is_fin_conv [symmetric])
    have "map (\<lambda>row. row ! t) (prediction sales pred) =
        map Fin (map (\<lambda>a. a * rval (pred ! t)) (map (\<lambda>a. a / ?g) ?rs))"
    proof -
      have "fmul (Fin a) (pred ! t) = Fin (a * rval (pred ! t))" for a
        by (subst pt) simp
      then show ?thesis
        using t by (simp add: prediction_def ger_def pr comp_def)
    qed
    then have "fsum (map (\<lambda>row. row ! t) (prediction sales pred)) =
        Fin (sum_list (map (\<lambda>a. a / ?g) ?rs) * rval (pred ! t))"
      by (simp only: fsum_Fin sum_list_mult_right)
    then show ?thesis using one pt by simp
  qed
  from s1 s2 show ?thesis by blast
qed

theorem top_down_preserves_mass_witness:
  "fsum (proportion [[Fin 1, Fin 0], [Fin 1, Fin 2]]) = Fin 1
   \<and> fsum (map (\<lambda>row. row ! 0) (prediction [[Fin 1, Fin 0], [Fin 1, Fin 2]] [Fin 100]))
       = Fin 100"
proof -
  have a: "\<forall>row\<in>set [[Fin 1, Fin 0], [Fin 1, Fin 2]]. \<forall>x\<in>set row. is_fin x" by simp
  have b: "\<forall>x\<in>set [Fin 100]. is_fin x" by simp
  have c: "grand_total [[Fin 1, Fin 0], [Fin 1, Fin 2]] \<noteq> Fin 0"
    by (simp add: grand_total_def sales_last28_def fsum_def)
  from top_down_preserves_mass [OF a b c] show ?thesis by simp
qed

section \<open>The weight of a window\<close>

lemmas backtest_eval = m5_backtest_def normalize_weight_def reshape_rows_def bop_def
  broadcast_shapes_def required_train_window_def zero_time_def cumsum_def rows_of_def
  set_min_train_window_def eval_weighted_scale_def get_metric_scale_def
  metric_scale_series_def lag1_def active_time_def gather_row_def sum_time_def pow_norm_def
  root_norm_def metric_norm_def fmean_def fsum_def fsub_def py_take_def slice_shape_def
  mat_def vec_def inf_sign_def Let_def

text \<open>
  C1. The claim is that every window is scored with the entry \<open>t1 - 1\<close> of the one
  normalized weight vector. The loop assigns \<^verbatim>\<open>weight = weight[window["t1"] - 1]\<close>, so
  the second window indexes what the first one left. On a series of 4 steps and 1
  channel with the default weight, a backtest of one window (\<open>t1 = 2\<close>) is scored with
  the normalized weight 1 at index 1 and gets \<open>ws_mae = 1 * 3 / 1\<close>; with a second
  window (\<open>t1 = 3\<close>) the weight is by then a number without axes and the call fails
  with an index error instead of returning the two windows.
\<close>

theorem m5_backtest_weight_overwritten:
  "m5_backtest
     \<lparr>backtest = (\<lambda>d k. Inr [\<lparr>t0 = 0, t1 = 2, t2 = 3, entries = [(''mae'', Sc (Fin 3))]\<rparr>]),
      crps_empirical = (\<lambda>p t. Inl ValueError), quantiles = []\<rparr>
     (mat 1 [[Fin 1], [Fin 2], [Fin 4], [Fin 8]]) None
     \<lparr>metrics = Some [(''mae'', eval_mae)], min_train_window = None\<rparr>
   = ([Min_train_window_set 2],
      Inr [\<lparr>t0 = 0, t1 = 2, t2 = 3,
             entries = [(''mae'', Sc (Fin 3)), (''ws_mae'', Sc (Fin 3))]\<rparr>])
   \<and> m5_backtest
     \<lparr>backtest = (\<lambda>d k. Inr [\<lparr>t0 = 0, t1 = 2, t2 = 3, entries = [(''mae'', Sc (Fin 3))]\<rparr>,
                             \<lparr>t0 = 0, t1 = 3, t2 = 4, entries = [(''mae'', Sc (Fin 3))]\<rparr>]),
      crps_empirical = (\<lambda>p t. Inl ValueError), quantiles = []\<rparr>
     (mat 1 [[Fin 1], [Fin 2], [Fin 4], [Fin 8]]) None
     \<lparr>metrics = Some [(''mae'', eval_mae)], min_train_window = None\<rparr>
   = ([Min_train_window_set 2], Inl IndexError)"
  by (simp add: backtest_eval)

section \<open>Shapes that do not match\<close>

lemmas metric_eval = eval_mae_def mean_over_series_def batch_shape_def reshape_m1_def bop_def
  broadcast_shapes_def median_def fsort_def fmean_def fsum_def fsub_def mat_def vec_def
  inf_sign_def Let_def

text \<open>
  A truth tensor of shape \<open>[1, 1]\<close> against an ensemble of shape \<open>[1, 2, 1]\<close>: the
  durations 1 and 2 differ, and MAE returns a value.
\<close>

theorem eval_mae_broadcasts_counterexample:
  "shape (Ts [2, 1] [mat 1 [[Fin 1], [Fin 2]]]) = [1, 2, 1]
   \<and> shape (mat 1 [[Fin 0 :: fv]]) = [1, 1]
   \<and> eval_mae (Ts [2, 1] [mat 1 [[Fin 1], [Fin 2]]]) (mat 1 [[Fin 0]])
       = Inr (Sc (Fin (3 / 2)))"
  by (simp add: metric_eval)

lemma broadcast_incompatible:
  assumes "(T \<noteq> T' \<and> T \<noteq> 1 \<and> T' \<noteq> 1) \<or> (D \<noteq> D' \<and> D \<noteq> 1 \<and> D' \<noteq> 1)"
  shows "broadcast_shapes (B @ [T, D]) (B' @ [T', D']) = None"
  using assms by (auto simp: broadcast_shapes_def)

lemma bop_incompatible:
  assumes "has_shape (B @ [T, D]) a" "has_shape (B' @ [T', D']) c"
    and "(T \<noteq> T' \<and> T \<noteq> 1 \<and> T' \<noteq> 1) \<or> (D \<noteq> D' \<and> D \<noteq> 1 \<and> D' \<noteq> 1)"
  shows "bop f a c = Inl RuntimeError"
  using assms(1,2) broadcast_incompatible [OF assms(3)]
  by (simp add: bop_def has_shape_shape)

lemma shape_mismatch_mae:
  assumes "has_shape (S # B @ [T, D]) pred" "has_shape (B' @ [T', D']) truth"
    and "(T \<noteq> T' \<and> T \<noteq> 1 \<and> T' \<noteq> 1) \<or> (D \<noteq> D' \<and> D \<noteq> 1 \<and> D' \<noteq> 1)"
  shows "isl (eval_mae pred truth)"
proof -
  obtain xs where p: "pred = Ts (B @ [T, D]) xs" using assms(1) by (auto simp: has_shape_Cons)
  show ?thesis
  proof (cases "xs = []")
    case True
    then show ?thesis using p by (simp add: eval_mae_def)
  next
    case False
    have "has_shape (B @ [T, D]) (reduce0 median pred)"
      using assms(1) by (rule has_shape_reduce0)
    from bop_incompatible [where f = fsub, OF this assms(2,3)] show ?thesis
      using p False by (simp add: eval_mae_def)
  qed
qed

lemma shape_mismatch_rmse:
  assumes "has_shape (S # B @ [T, D]) pred" "has_shape (B' @ [T', D']) truth"
    and "(T \<noteq> T' \<and> T \<noteq> 1 \<and> T' \<noteq> 1) \<or> (D \<noteq> D' \<and> D \<noteq> 1 \<and> D' \<noteq> 1)"
  shows "eval_rmse pred truth = Inl RuntimeError"
proof -
  have "has_shape (B @ [T, D]) (reduce0 fmean pred)"
    using assms(1) by (rule has_shape_reduce0)
  from bop_incompatible [where f = fsub, OF this assms(2,3)] show ?thesis
    by (simp add: eval_rmse_def)
qed

lemma shape_mismatch_pl:
  assumes "has_shape (S # B @ [T, D]) pred" "has_shape (B' @ [T', D']) truth"
    and "(T \<noteq> T' \<and> T \<noteq> 1 \<and> T' \<noteq> 1) \<or> (D \<noteq> D' \<and> D \<noteq> 1 \<and> D' \<noteq> 1)"
  shows "isl (eval_pl us pred truth)"
proof -
  obtain xs where p: "pred = Ts (B @ [T, D]) xs" "xs \<noteq> [] \<or> xs = []" 
    and xs: "\<forall>x\<in>set xs. has_shape (B @ [T, D]) x"
    using assms(1) by (auto simp: has_shape_Cons)
  show ?thesis
  proof (cases "quantile us pred")
    case (Inl e)
    then show ?thesis by (simp add: eval_pl_def)
  next
    case (Inr q)
    then obtain ws where q: "q = Ts (B @ [T, D]) ws"
      using p by (auto simp: ebind_eq_Inr)
    have "shape q = (length ws # B) @ [T, D]" using q by simp
    moreover have "shape (unsqueeze0 truth) = (1 # B') @ [T', D']"
      using assms(2) by (simp add: unsqueeze0_def has_shape_shape)
    ultimately have "bop fsub q (unsqueeze0 truth) = Inl RuntimeError"
      using broadcast_incompatible [OF assms(3), of "length ws # B" "1 # B'"]
      by (simp add: bop_def)
    then show ?thesis using Inr by (simp add: eval_pl_def)
  qed
qed

lemma shape_mismatch_weight:
  "shape weight \<noteq> butlast (shape data)
   \<Longrightarrow> m5_backtest ext data (Some weight) kw = ([], Inl AssertionError)"
  by (simp add: m5_backtest_def normalize_weight_def)

text \<open>
  C6, as the code has it. The metrics of \<^verbatim>\<open>evaluate.py\<close> make no check of their own:
  MAE, RMSE and pinball loss fail with an error when the duration or the channel axis
  of the truth and of the prediction ensemble have different sizes neither of which is
  1 (a size of 1 is broadcast: a truth of one time step is scored against an ensemble
  of two time steps without an error), and
  \<^verbatim>\<open>m5_backtest\<close> fails with an assertion error, before anything else, when the shape of
  the weight it is given is not the shape of the data without its last axis.
\<close>

theorem shape_mismatch_fails:
  assumes "has_shape (S # B @ [T, D]) pred" and "has_shape (B' @ [T', D']) truth"
    and "(T \<noteq> T' \<and> T \<noteq> 1 \<and> T' \<noteq> 1) \<or> (D \<noteq> D' \<and> D \<noteq> 1 \<and> D' \<noteq> 1)"
    and "shape weight \<noteq> butlast (shape data)"
  shows "isl (eval_mae pred truth) \<and> eval_rmse pred truth = Inl RuntimeError
       \<and> isl (eval_pl us pred truth)
       \<and> m5_backtest ext data (Some weight) kw = ([], Inl AssertionError)"
  using shape_mismatch_mae [OF assms(1-3)] shape_mismatch_rmse [OF assms(1-3)]
    shape_mismatch_pl [OF assms(1-3)] shape_mismatch_weight [OF assms(4)]
  by blast

theorem shape_mismatch_fails_witness:
  "shape (vec [Fin 1]) \<noteq> butlast (shape (mat 1 [[Fin 1], [Fin 2]]))
   \<and> isl (eval_mae (Ts [2, 1] [mat 1 [[Fin 1], [Fin 2]]]) (mat 1 [[Fin 0], [Fin 0], [Fin 0]]))
   \<and> eval_rmse (Ts [2, 1] [mat 1 [[Fin 1], [Fin 2]]]) (mat 1 [[Fin 0], [Fin 0], [Fin 0]])
       = Inl RuntimeError
   \<and> isl (eval_pl [1 / 2] (Ts [2, 1] [mat 1 [[Fin 1], [Fin 2]]])
            (mat 1 [[Fin 0], [Fin 0], [Fin 0]]))
   \<and> m5_backtest
        \<lparr>backtest = (\<lambda>d k. Inr []), crps_empirical = (\<lambda>p t. Inl ValueError), quantiles = []\<rparr>
        (mat 1 [[Fin 1], [Fin 2]]) (Some (vec [Fin 1]))
        \<lparr>metrics = None, min_train_window = None\<rparr>
      = ([], Inl AssertionError)"
proof -
  have a: "has_shape (1 # [] @ [2, 1]) (Ts [2, 1] [mat 1 [[Fin 1], [Fin 2]]])"
    by (simp add: mat_def vec_def)
  have b: "has_shape ([] @ [3, 1]) (mat 1 [[Fin 0 :: fv], [Fin 0], [Fin 0]])"
    by (simp add: mat_def vec_def)
  have c: "((2::nat) \<noteq> 3 \<and> (2::nat) \<noteq> 1 \<and> (3::nat) \<noteq> 1)
         \<or> ((1::nat) \<noteq> 1 \<and> (1::nat) \<noteq> 1 \<and> (1::nat) \<noteq> 1)"
    by simp
  have d: "shape (vec [Fin 1]) \<noteq> butlast (shape (mat 1 [[Fin 1], [Fin 2]]))"
    by (simp add: mat_def vec_def)
  from shape_mismatch_fails [OF a b c d] a b d show ?thesis by blast
qed

section \<open>Rescaling the weights\<close>

lemma fmul_fadd_distrib:
  "0 < c \<Longrightarrow> fmul (Fin c) (fadd x y) = fadd (fmul (Fin c) x) (fmul (Fin c) y)"
  by (cases x; cases y) (auto simp: inf_sign_def distrib_left)

lemma fsum_scale: "0 < c \<Longrightarrow> fsum (map (fmul (Fin c)) xs) = fmul (Fin c) (fsum xs)"
  by (induction xs) (auto simp: fsum_def fmul_fadd_distrib)

lemma fdiv_scale: "0 < c \<Longrightarrow> fdiv (fmul (Fin c) x) (fmul (Fin c) y) = fdiv x y"
  by (cases x; cases y) (auto simp: inf_sign_def zero_le_mult_iff zero_less_mult_iff)

lemma reduce0_fsum_scale:
  assumes "0 < c"
  shows "reduce0 fsum (map_tensor (fmul (Fin c)) t) = map_tensor (fmul (Fin c)) (reduce0 fsum t)"
proof (cases t)
  case (Sc x)
  then show ?thesis using fsum_scale [OF assms, of "[x]"] by simp
next
  case (Ts inner xs)
  have "map_tensor fsum (map_tensor (map (fmul (Fin c))) (samples xs))
      = map_tensor (fmul (Fin c)) (map_tensor fsum (samples xs))"
    by (simp add: tensor.map_comp comp_def fsum_scale [OF assms])
  then show ?thesis using Ts fsum_scale [OF assms, of "[]"]
    by (simp add: samples_map map_full)
qed

lemma reshape_rows_map:
  "reshape_rows n (map_tensor f t)
   = (case reshape_rows n t of Inl e \<Rightarrow> Inl e | Inr r \<Rightarrow> Inr (map_tensor f r))"
proof -
  have "build [length (flat t) div n, n] (map f (flat t))
      = map_tensor f (build [length (flat t) div n, n] (flat t))"
    if "length (flat t) mod n = 0"
    using that by (intro build_map) (simp add: mod_eq_0_iff_dvd)
  then show ?thesis
    by (simp add: reshape_rows_def flat_map Let_def del: build.simps)
qed

lemma normalize_weight_scale:
  assumes "0 < c"
  shows "normalize_weight data (Some (map_tensor (fmul (Fin c)) w)) = normalize_weight data (Some w)"
proof -
  have z: "zipT fdiv (map_tensor (fmul (Fin c)) a) (map_tensor (fmul (Fin c)) b)
      = map_tensor (\<lambda>x. x) (zipT fdiv a b)" for a b
    by (rule zipT_map) (simp add: fdiv_scale [OF assms])
  have "bop fdiv (map_tensor (fmul (Fin c)) w) (map_tensor (fmul (Fin c)) s) = bop fdiv w s" for s
    by (simp add: bop_def expand_map z tensor.map_ident split: option.splits)
  then show ?thesis
    by (auto simp: normalize_weight_def reshape_rows_map reduce0_fsum_scale [OF assms]
        split: sum.splits)
qed

text \<open>
  C9. Multiplying every weight by a positive constant \<open>c\<close> does not change what
  \<^verbatim>\<open>m5_backtest\<close> returns, the \<open>ws_\<close> values of every window included: the weights are
  divided by their sums over the series before they are used, and the division cancels
  \<open>c\<close>.
\<close>

theorem weight_rescaling_invariant:
  "0 < c \<Longrightarrow>
   m5_backtest ext data (Some (map_tensor (fmul (Fin c)) weight)) kw
   = m5_backtest ext data (Some weight) kw"
  by (simp add: m5_backtest_def normalize_weight_scale)

theorem weight_rescaling_invariant_witness:
  "(0::real) < 2
   \<and> m5_backtest
     \<lparr>backtest = (\<lambda>d k. Inr [\<lparr>t0 = 0, t1 = 2, t2 = 3, entries = [(''mae'', Sc (Fin 3))]\<rparr>]),
      crps_empirical = (\<lambda>p t. Inl ValueError), quantiles = []\<rparr>
     (mat 1 [[Fin 1], [Fin 2], [Fin 4], [Fin 8]])
     (Some (map_tensor (fmul (Fin 2)) (vec [Fin 1, Fin 3, Fin 1, Fin 1])))
     \<lparr>metrics = Some [(''mae'', eval_mae)], min_train_window = None\<rparr>
   = m5_backtest
     \<lparr>backtest = (\<lambda>d k. Inr [\<lparr>t0 = 0, t1 = 2, t2 = 3, entries = [(''mae'', Sc (Fin 3))]\<rparr>]),
      crps_empirical = (\<lambda>p t. Inl ValueError), quantiles = []\<rparr>
     (mat 1 [[Fin 1], [Fin 2], [Fin 4], [Fin 8]])
     (Some (vec [Fin 1, Fin 3, Fin 1, Fin 1]))
     \<lparr>metrics = Some [(''mae'', eval_mae)], min_train_window = None\<rparr>
   \<and> m5_backtest
     \<lparr>backtest = (\<lambda>d k. Inr [\<lparr>t0 = 0, t1 = 2, t2 = 3, entries = [(''mae'', Sc (Fin 3))]\<rparr>]),
      crps_empirical = (\<lambda>p t. Inl ValueError), quantiles = []\<rparr>
     (mat 1 [[Fin 1], [Fin 2], [Fin 4], [Fin 8]])
     (Some (vec [Fin 1, Fin 3, Fin 1, Fin 1]))
     \<lparr>metrics = Some [(''mae'', eval_mae)], min_train_window = None\<rparr>
   = ([Min_train_window_set 2],
      Inr [\<lparr>t0 = 0, t1 = 2, t2 = 3,
             entries = [(''mae'', Sc (Fin 3)), (''ws_mae'', Sc (Fin 3))]\<rparr>])"
proof -
  have pos: "(0::real) < 2" by simp
  have val: "m5_backtest
     \<lparr>backtest = (\<lambda>d k. Inr [\<lparr>t0 = 0, t1 = 2, t2 = 3, entries = [(''mae'', Sc (Fin 3))]\<rparr>]),
      crps_empirical = (\<lambda>p t. Inl ValueError), quantiles = []\<rparr>
     (mat 1 [[Fin 1], [Fin 2], [Fin 4], [Fin 8]])
     (Some (vec [Fin 1, Fin 3, Fin 1, Fin 1]))
     \<lparr>metrics = Some [(''mae'', eval_mae)], min_train_window = None\<rparr>
   = ([Min_train_window_set 2],
      Inr [\<lparr>t0 = 0, t1 = 2, t2 = 3,
             entries = [(''mae'', Sc (Fin 3)), (''ws_mae'', Sc (Fin 3))]\<rparr>])"
    by (simp add: backtest_eval)
  from weight_rescaling_invariant [OF pos] pos val show ?thesis by blast
qed

section \<open>The minimum training window\<close>

lemma cumsum_from_positive:
  "0 < a \<Longrightarrow> \<forall>s\<in>set ss. 0 \<le> s \<Longrightarrow> filter feq0 (cumsum_from (Fin a) (map Fin ss)) = []"
proof (induction ss arbitrary: a)
  case Nil
  then show ?case by simp
next
  case (Cons s ss)
  then have "0 < a + s" by simp
  with Cons show ?case by simp
qed

lemma zero_run_reals:
  "\<forall>s\<in>set ss. 0 \<le> s
   \<Longrightarrow> length (filter feq0 (cumsum_from (Fin 0) (map Fin ss))) = length (takeWhile (\<lambda>s. s = 0) ss)"
proof (induction ss)
  case Nil
  then show ?case by simp
next
  case (Cons s ss)
  show ?case
  proof (cases "s = 0")
    case True
    then show ?thesis using Cons by simp
  next
    case False
    then have "0 < s" using Cons.prems by simp
    then show ?thesis using Cons.prems False by (simp add: cumsum_from_positive)
  qed
qed

lemma sum_zero_iff:
  assumes "\<forall>x\<in>set row. is_fin x \<and> 0 \<le> rval x"
  shows "sum_list (map rval row) = 0 \<longleftrightarrow> list_all (\<lambda>x. x = Fin 0) row"
proof -
  have "sum_list (map rval row) = 0 \<longleftrightarrow> (\<forall>r\<in>set (map rval row). r = 0)"
    using assms by (intro sum_list_nonneg_eq_0_iff) auto
  also have "\<dots> \<longleftrightarrow> list_all (\<lambda>x. x = Fin 0) row"
    using assms by (auto simp: list_all_iff is_fin_conv)
  finally show ?thesis .
qed

lemma zero_time_nonneg:
  assumes "\<forall>row\<in>set series. \<forall>x\<in>set row. is_fin x \<and> 0 \<le> rval x"
  shows "zero_time series = leading_zero_run series"
proof -
  let ?ss = "map (\<lambda>row. sum_list (map rval row)) series"
  have sums: "map fsum series = map Fin ?ss"
    using assms by (simp add: fsum_fin)
  have nn: "\<forall>s\<in>set ?ss. 0 \<le> s"
    using assms by (auto intro!: sum_list_nonneg)
  have "zero_time series = length (takeWhile (\<lambda>s. s = 0) ?ss)"
    unfolding zero_time_def cumsum_def sums by (rule zero_run_reals [OF nn])
  also have "\<dots> = length (takeWhile ((\<lambda>s. s = 0) \<circ> (\<lambda>row. sum_list (map rval row))) series)"
    by (simp add: takeWhile_map)
  also have "takeWhile ((\<lambda>s. s = 0) \<circ> (\<lambda>row. sum_list (map rval row))) series
      = takeWhile (list_all (\<lambda>x. x = Fin 0)) series"
    using assms by (intro takeWhile_cong refl) (simp add: sum_zero_iff)
  finally show ?thesis by (simp add: leading_zero_run_def)
qed

lemma flat_cells: "\<forall>c\<in>set cs. has_shape [] c \<Longrightarrow> concat (map flat cs) = map unSc cs"
  by (induction cs) (auto simp: has_shape_Nil)

lemma series_of_elements:
  "has_shape (B @ [T, D]) t \<Longrightarrow> s \<in> set (series_of t) \<Longrightarrow> row \<in> set s \<Longrightarrow> x \<in> set row
   \<Longrightarrow> x \<in> set (flat t)"
proof (induction B arbitrary: t)
  case Nil
  then obtain rows where t: "t = Ts [D] rows" "\<forall>r\<in>set rows. has_shape [D] r"
    by (auto simp: has_shape_Cons)
  from Nil t obtain r where r: "r \<in> set rows" "row = map unSc (children r)"
    by (auto simp: rows_of_def)
  then obtain cs where cs: "r = Ts [] cs" "\<forall>c\<in>set cs. has_shape [] c"
    using t by (auto simp: has_shape_Cons)
  then have "flat r = row" using r by (simp add: flat_cells)
  then have "x \<in> set (flat r)" using Nil.prems(4) by simp
  then show ?case using t(1) r(1) by auto
next
  case (Cons n B)
  then obtain xs where t: "t = Ts (B @ [T, D]) xs" "\<forall>x\<in>set xs. has_shape (B @ [T, D]) x"
    by (auto simp: has_shape_Cons)
  then obtain y where "y \<in> set xs" "s \<in> set (series_of y)"
    using Cons.prems(2) by auto
  then show ?case using Cons t by auto
qed

lemma length_series_of: "has_shape (B @ [T, D]) t \<Longrightarrow> length (series_of t) = prod_list B"
proof (induction B arbitrary: t)
  case Nil
  then show ?case by (auto simp: has_shape_Cons)
next
  case (Cons n B)
  then obtain xs where t: "t = Ts (B @ [T, D]) xs" "length xs = n"
    "\<forall>x\<in>set xs. has_shape (B @ [T, D]) x"
    by (auto simp: has_shape_Cons)
  then have "sum_list (map (\<lambda>x. length (series_of x)) xs) = length xs * prod_list B"
    using Cons.IH by (intro sum_list_const) auto
  then show ?case using t by (simp add: length_concat comp_def)
qed

lemma required_train_window_nonneg:
  assumes "has_shape (B @ [T, D]) data" "0 < prod_list B"
    and "\<forall>x\<in>set (flat data). is_fin x \<and> 0 \<le> rval x"
  shows "required_train_window data = Inr (spec_train_window data)"
proof -
  have eq: "map zero_time (series_of data) = map leading_zero_run (series_of data)"
  proof (rule map_cong [OF refl])
    fix s assume "s \<in> set (series_of data)"
    then have "\<forall>row\<in>set s. \<forall>x\<in>set row. is_fin x \<and> 0 \<le> rval x"
      using series_of_elements [OF assms(1)] assms(3) by blast
    then show "zero_time s = leading_zero_run s" by (rule zero_time_nonneg)
  qed
  have ne: "series_of data \<noteq> []"
    using length_series_of [OF assms(1)] assms(2) by auto
  show ?thesis
    unfolding required_train_window_def spec_train_window_def Let_def eq
    using ne by simp
qed

text \<open>
  A series \<open>1, -1, 3\<close> has no leading zero step, so the value of the claim is
  \<open>0 + 2 = 2\<close> and a requested minimum of 2 is not smaller. Its running sum is zero at
  the second step, the code counts that step, and the requested minimum is replaced by
  3.
\<close>

theorem min_train_window_counterexample:
  "spec_train_window (mat 1 [[Fin 1], [Fin (- 1)], [Fin 3]]) = 2
   \<and> m5_backtest
     \<lparr>backtest = (\<lambda>d k. Inr []), crps_empirical = (\<lambda>p t. Inl ValueError), quantiles = []\<rparr>
     (mat 1 [[Fin 1], [Fin (- 1)], [Fin 3]]) None
     \<lparr>metrics = None, min_train_window = Some 2\<rparr>
   = ([Min_train_window_set 3], Inr [])"
  by (simp add: backtest_eval spec_train_window_def leading_zero_run_def)

text \<open>
  C4, as the code has it. On data without negative values (and with at least one
  series), once the weights are normalized, \<^verbatim>\<open>m5_backtest\<close> takes the maximum over the
  series of the length of the leading run of all-zero time steps, plus 2; when the
  requested \<^verbatim>\<open>min_train_window\<close> (1 when absent) is smaller it logs the diagnostic and
  calls \<^verbatim>\<open>backtest\<close> with that value, and otherwise calls it with the arguments as
  they are.
\<close>

theorem min_train_window_raised:
  assumes "has_shape (B @ [T, D]) data" and "0 < prod_list B"
    and "\<forall>x\<in>set (flat data). is_fin x \<and> 0 \<le> rval x"
    and "normalize_weight data weight = Inr w"
  shows "m5_backtest ext data weight kw =
     (let m = spec_train_window data;
          kw' = (if metrics kw = None
                 then kw\<lparr>metrics := Some (DEFAULT_METRICS (crps_empirical ext) (quantiles ext))\<rparr>
                 else kw);
          run = (\<lambda>k. ebind (backtest ext data k)
                        (window_loop data (map fst (the (metrics kw'))) w))
      in if (case min_train_window kw of None \<Rightarrow> 1 | Some v \<Rightarrow> v) < m
         then ([Min_train_window_set m], run (kw'\<lparr>min_train_window := Some m\<rparr>))
         else ([], run kw'))"
  using assms(4) required_train_window_nonneg [OF assms(1-3)]
  by (simp add: m5_backtest_def set_min_train_window_def Let_def)

theorem min_train_window_raised_witness:
  "normalize_weight (mat 1 [[Fin 0], [Fin 0], [Fin 1], [Fin 2]]) None
       = Inr (vec [Fin 1, Fin 1, Fin 1, Fin 1])
   \<and> spec_train_window (mat 1 [[Fin 0], [Fin 0], [Fin 1], [Fin 2]]) = 4
   \<and> m5_backtest
        \<lparr>backtest = (\<lambda>d k. Inr [\<lparr>t0 = 0, t1 = the (min_train_window k), t2 = 4, entries = []\<rparr>]),
         crps_empirical = (\<lambda>p t. Inl ValueError), quantiles = []\<rparr>
        (mat 1 [[Fin 0], [Fin 0], [Fin 1], [Fin 2]]) None
        \<lparr>metrics = Some [], min_train_window = Some 3\<rparr>
      = ([Min_train_window_set 4], Inr [\<lparr>t0 = 0, t1 = 4, t2 = 4, entries = []\<rparr>])"
proof -
  have a: "has_shape ([] @ [4, 1]) (mat 1 [[Fin 0 :: fv], [Fin 0], [Fin 1], [Fin 2]])"
    by (simp add: mat_def vec_def)
  have b: "(0::nat) < prod_list []" by simp
  have c: "\<forall>x\<in>set (flat (mat 1 [[Fin 0], [Fin 0], [Fin 1], [Fin 2]])). is_fin x \<and> 0 \<le> rval x"
    by (simp add: mat_def vec_def)
  have d: "normalize_weight (mat 1 [[Fin 0], [Fin 0], [Fin 1], [Fin 2]]) None
       = Inr (vec [Fin 1, Fin 1, Fin 1, Fin 1])"
    by (simp add: backtest_eval)
  have e: "spec_train_window (mat 1 [[Fin 0], [Fin 0], [Fin 1], [Fin 2]]) = 4"
    by (simp add: spec_train_window_def leading_zero_run_def mat_def vec_def rows_of_def)
  show ?thesis
    using a b c d e min_train_window_raised [OF a b c d,
      of "\<lparr>backtest = (\<lambda>d k. Inr [\<lparr>t0 = 0, t1 = the (min_train_window k), t2 = 4, entries = []\<rparr>]),
           crps_empirical = (\<lambda>p t. Inl ValueError), quantiles = []\<rparr>"
         "\<lparr>metrics = Some [], min_train_window = Some 3\<rparr>"]
    by (simp add: Let_def vec_def py_take_def mat_def)
qed

section \<open>The scale estimator\<close>

lemma fne0_conv: "fne0 x \<longleftrightarrow> \<not> feq0 x"
  by (cases x) auto

lemma length_cumsum_from: "length (cumsum_from a xs) = length xs"
  by (induction xs arbitrary: a) auto

lemma filter_dropWhile:
  "list_all fne0 (dropWhile feq0 xs) \<Longrightarrow> filter fne0 xs = dropWhile feq0 xs"
proof -
  assume a: "list_all fne0 (dropWhile feq0 xs)"
  have "filter fne0 xs = filter fne0 (takeWhile feq0 xs) @ filter fne0 (dropWhile feq0 xs)"
    by (metis filter_append takeWhile_dropWhile_id)
  moreover have "filter fne0 (takeWhile feq0 xs) = []"
    by (auto simp: filter_empty_conv fne0_conv dest: set_takeWhileD)
  moreover have "filter fne0 (dropWhile feq0 xs) = dropWhile feq0 xs"
    using a by (simp add: list_all_iff)
  ultimately show ?thesis by simp
qed

lemma active_time_spec:
  "stays_active s \<Longrightarrow> active_time s = length s - first_active s"
proof -
  assume "stays_active s"
  then have "filter fne0 (cumsum (map fsum s)) = dropWhile feq0 (cumsum (map fsum s))"
    unfolding stays_active_def by (rule filter_dropWhile)
  then have "active_time s = length (dropWhile feq0 (cumsum (map fsum s)))"
    by (simp add: active_time_def)
  also have "\<dots> = length (cumsum (map fsum s)) - length (takeWhile feq0 (cumsum (map fsum s)))"
    by (metis add_diff_cancel_left' length_append takeWhile_dropWhile_id)
  finally show ?thesis by (simp add: first_active_def cumsum_def length_cumsum_from)
qed

lemma map2_nth:
  "length xs = n \<Longrightarrow> length ys = n
   \<Longrightarrow> map (\<lambda>(x, y). f x y) (zip xs ys) = map (\<lambda>j. f (xs ! j) (ys ! j)) [0..<n]"
  by (auto simp: list_eq_iff_nth_eq)

lemma lag1_spec:
  assumes "\<forall>row\<in>set s. length row = D"
  shows "lag1 D s = map (\<lambda>t. map (\<lambda>j. lag_diff s t j) [0..<D]) [0..<length s]"
proof (cases "s = []")
  case True
  then show ?thesis by (simp add: lag1_def)
next
  case False
  let ?prev = "replicate D (Fin 0) # butlast s"
  have len: "length ?prev = length s" using False by simp
  have row: "length (s ! t) = D" if "t < length s" for t using assms that by simp
  have prev: "?prev ! t = (if t = 0 then replicate D (Fin 0) else s ! (t - 1))"
    if "t < length s" for t
    using that by (cases t) (auto simp: nth_butlast)
  have plen: "length (?prev ! t) = D" if "t < length s" for t
    using that row [of "t - 1"] by (simp add: prev)
  have "lag1 D s = map (\<lambda>t. map (\<lambda>(x, y). fsub x y) (zip (s ! t) (?prev ! t))) [0..<length s]"
    unfolding lag1_def using len by (subst map2_nth [where n = "length s"]) auto
  also have "\<dots> = map (\<lambda>t. map (\<lambda>j. fsub (s ! t ! j) (?prev ! t ! j)) [0..<D]) [0..<length s]"
    using row plen by (intro map_cong refl map2_nth) auto
  also have "\<dots> = map (\<lambda>t. map (\<lambda>j. lag_diff s t j) [0..<D]) [0..<length s]"
    by (intro map_cong refl) (auto simp: lag_diff_def prev)
  finally show ?thesis .
qed

lemma sum_time_table:
  "sum_time D (map (map g) (map (\<lambda>t. map (F t) [0..<D]) ts))
   = map (\<lambda>j. fsum (map (\<lambda>t. g (F t j)) ts)) [0..<D]"
  unfolding sum_time_def by (intro map_cong refl arg_cong [where f = fsum]) (simp add: comp_def)

lemma metric_scale_series_spec:
  assumes rows: "\<forall>row\<in>set s. length row = D"
    and act: "stays_active s" and k: "first_active s < length s"
  shows "metric_scale_series metric D s = Inr (spec_scale metric D s)"
proof -
  let ?k = "first_active s" and ?T = "length s"
  let ?p = "metric_norm metric"
  let ?g = "\<lambda>x. pow_norm ?p (fabs x)"
  have a: "active_time s = ?T - ?k" by (rule active_time_spec [OF act])
  have idx: "?T - (?T - ?k) = ?k" using k by simp
  have krow: "length (s ! ?k) = D" using rows k by simp
  have g: "gather_row D s ?k = Inr (if D = 0 then [] else s ! ?k)"
    using k by (simp add: gather_row_def)
  have start: "map ?g (if D = 0 then [] else s ! ?k) = map (\<lambda>j. ?g (s ! ?k ! j)) [0..<D]"
    using krow by (auto simp: list_eq_iff_nth_eq)
  have num: "map (\<lambda>(a, b). fsub a b)
       (zip (sum_time D (map (map ?g) (lag1 D s))) (map ?g (if D = 0 then [] else s ! ?k)))
     = map (\<lambda>j. fsub (fsum (map (\<lambda>t. ?g (lag_diff s t j)) [0..<?T])) (?g (s ! ?k ! j))) [0..<D]"
    unfolding lag1_spec [OF rows] sum_time_table start
    by (subst map2_nth [where n = D]) auto
  show ?thesis
    unfolding metric_scale_series_def Let_def a idx g ebind.simps num
    by (simp add: spec_scale_def metric_norm_def Let_def)
qed


lemma sequence_Inr:
  "\<forall>x\<in>set xs. F x = Inr (G x) \<Longrightarrow> sequence (map F xs) = Inr (map G xs)"
  by (induction xs) auto

lemma series_at_in_series_of:
  "has_shape (B @ [T, D]) t \<Longrightarrow> valid B b \<Longrightarrow> series_at t b \<in> set (series_of t)"
proof (induction B arbitrary: t b)
  case Nil
  then show ?case by (auto simp: has_shape_Cons valid_Nil series_at_def)
next
  case (Cons n B)
  then obtain xs where t: "t = Ts (B @ [T, D]) xs" "length xs = n"
    "\<forall>x\<in>set xs. has_shape (B @ [T, D]) x"
    by (auto simp: has_shape_Cons)
  from Cons.prems obtain i q where b: "b = i # q" "i < n" "valid B q"
    by (auto simp: valid_Cons)
  have "series_at (xs ! i) q \<in> set (series_of (xs ! i))"
    using t b by (intro Cons.IH) auto
  then show ?case using t b by (auto simp: series_at_def)
qed

lemma series_rows:
  "has_shape (B @ [T, D]) t \<Longrightarrow> s \<in> set (series_of t)
   \<Longrightarrow> length s = T \<and> (\<forall>row\<in>set s. length row = D)"
proof (induction B arbitrary: t)
  case Nil
  then show ?case by (fastforce simp: has_shape_Cons rows_of_def)
next
  case (Cons n B)
  then obtain xs where t: "t = Ts (B @ [T, D]) xs" "\<forall>x\<in>set xs. has_shape (B @ [T, D]) x"
    by (auto simp: has_shape_Cons)
  then obtain y where "y \<in> set xs" "s \<in> set (series_of y)"
    using Cons.prems(2) by auto
  then show ?case using Cons.IH t by blast
qed

lemma map_series_lift:
  assumes "has_shape (B @ [T, D]) t"
    and "\<forall>s\<in>set (series_of t). f D s = Inr (g s)"
  shows "\<exists>r. map_series f t = Inr r \<and> has_shape B r
           \<and> (\<forall>b. valid B b \<longrightarrow> elem r b = g (series_at t b))"
  using assms
proof (induction B arbitrary: t)
  case Nil
  then obtain rows where t: "t = Ts [D] rows" by (auto simp: has_shape_Cons)
  then show ?case using Nil by (simp add: valid_Nil elem_def series_at_def)
next
  case (Cons n B)
  then obtain xs where t: "t = Ts (B @ [T, D]) xs" "length xs = n"
    "\<forall>x\<in>set xs. has_shape (B @ [T, D]) x"
    by (auto simp: has_shape_Cons)
  have "\<forall>x\<in>set xs. \<exists>r. map_series f x = Inr r \<and> has_shape B r
           \<and> (\<forall>b. valid B b \<longrightarrow> elem r b = g (series_at x b))"
    using t Cons.prems(2) by (intro ballI Cons.IH) auto
  then obtain R where R: "\<forall>x\<in>set xs. map_series f x = Inr (R x) \<and> has_shape B (R x)
           \<and> (\<forall>b. valid B b \<longrightarrow> elem (R x) b = g (series_at x b))"
    by metis
  then have seq: "sequence (map (map_series f) xs) = Inr (map R xs)"
    by (intro sequence_Inr) auto
  have ne: "length (B @ [T, D]) \<noteq> 1" by simp
  have "map_series f t = Inr (Ts B (map R xs))"
    using t(1) seq ne by (simp add: butlast_append)
  moreover have "has_shape (n # B) (Ts B (map R xs))"
    using t R by auto
  moreover have "elem (Ts B (map R xs)) b = g (series_at t b)" if "valid (n # B) b" for b
  proof -
    from that obtain i q where b: "b = i # q" "i < n" "valid B q"
      by (auto simp: valid_Cons)
    then show ?thesis using t R by (auto simp: elem_def series_at_def)
  qed
  ultimately show ?case by blast
qed

lemmas spec_eval = spec_scale_def first_active_def lag_diff_def series_at_def rows_of_def
  cumsum_def fmean_def fsum_def fsub_def pow_norm_def root_norm_def inf_sign_def mat_def vec_def
  Let_def elem_def

text \<open>
  The series \<open>1, -1, 5\<close> is active from its first step, so the claim's active time is 3
  and its scale is \<open>((1 + 2 + 6) - 1) / 2 = 4\<close>. The running sum is zero at the second
  step: the code counts 2 active steps, takes the second value as the start value, and
  returns \<open>((1 + 2 + 6) - 1) / 1 = 8\<close>.
\<close>

theorem metric_scale_counterexample:
  "get_metric_scale ''mae'' (mat 1 [[Fin 1], [Fin (- 1)], [Fin 5]]) = Inr (Sc (Fin 8))
   \<and> spec_scale ''mae'' 1 (series_at (mat 1 [[Fin 1], [Fin (- 1)], [Fin 5]]) []) = Fin 4"
  by (simp add: backtest_eval spec_eval upt_rec)

text \<open>
  C3, as the code has it. When in every series of the training data the cumulative
  summed response stays non-zero once it is non-zero (as it does without negative
  values) and is non-zero at some step, the scale estimator returns one value per
  series, and the value of a series is the scale of the specification: the sum over
  time of \<open>|lag-1 difference|^p\<close> minus \<open>|value at the first active step|^p\<close>, averaged
  over the channels, divided by \<open>active_time - 1\<close>, to the power \<open>1 / p\<close>, with
  \<open>p = 2\<close> for \<open>rmse\<close> and 1 otherwise.
\<close>

theorem metric_scale_is_spec_scale:
  assumes "has_shape (B @ [T, D]) train_data" and "valid B b"
    and "\<forall>s\<in>set (series_of train_data). stays_active s \<and> first_active s < T"
  shows "\<exists>r. get_metric_scale metric train_data = Inr r \<and> has_shape B r
           \<and> elem r b = spec_scale metric D (series_at train_data b)"
proof -
  have "\<forall>s\<in>set (series_of train_data).
      metric_scale_series metric D s = Inr (spec_scale metric D s)"
  proof
    fix s assume s: "s \<in> set (series_of train_data)"
    from series_rows [OF assms(1) s] assms(3) s
    show "metric_scale_series metric D s = Inr (spec_scale metric D s)"
      by (intro metric_scale_series_spec) auto
  qed
  from map_series_lift [where f = "metric_scale_series metric"
      and g = "spec_scale metric D", OF assms(1) this] assms(1,2)
  show ?thesis by (auto simp: get_metric_scale_def has_shape_shape)
qed

theorem metric_scale_is_spec_scale_witness:
  "\<exists>r. get_metric_scale ''rmse''
      (Ts [3, 1] [mat 1 [[Fin 1], [Fin 2], [Fin 4]], mat 1 [[Fin 0], [Fin 2], [Fin 4]]]) = Inr r
    \<and> elem r [1] = Fin 2"
proof -
  have a: "has_shape ([2] @ [3, 1])
     (Ts [3, 1] [mat 1 [[Fin 1 :: fv], [Fin 2], [Fin 4]], mat 1 [[Fin 0], [Fin 2], [Fin 4]]])"
    by (simp add: mat_def vec_def)
  have b: "valid [2] [1]" by (simp add: valid_def)
  have c: "\<forall>s\<in>set (series_of (Ts [3, 1] [mat 1 [[Fin 1], [Fin 2], [Fin 4]],
      mat 1 [[Fin 0], [Fin 2], [Fin 4]]])). stays_active s \<and> first_active s < 3"
    by (simp add: stays_active_def first_active_def cumsum_def fsum_def mat_def vec_def rows_of_def)
  have d: "spec_scale ''rmse'' 1 (series_at (Ts [3, 1] [mat 1 [[Fin 1], [Fin 2], [Fin 4]],
      mat 1 [[Fin 0], [Fin 2], [Fin 4]]]) [1]) = Fin 2"
    by (simp add: spec_eval upt_rec)
  from metric_scale_is_spec_scale [OF a b c, of "''rmse''"] d show ?thesis by auto
qed

section \<open>The degenerate scale\<close>

lemma div_zero_nonfinite: "\<not> is_fin (fdiv x (Fin 0))"
  by (cases x) (auto simp: inf_sign_def)

lemma root_norm_nonfinite: "\<not> is_fin x \<Longrightarrow> \<not> is_fin (root_norm p x)"
  by (cases x) (auto simp: root_norm_def)

lemma active_time_le: "active_time s \<le> length s"
proof -
  have "length (filter fne0 (cumsum (map fsum s))) \<le> length (cumsum (map fsum s))"
    by (rule length_filter_le)
  then show ?thesis by (simp add: active_time_def cumsum_def length_cumsum_from)
qed

lemma metric_scale_series_returns:
  assumes "0 < active_time s"
  shows "\<exists>v. metric_scale_series metric D s = Inr v \<and> (active_time s = 1 \<longrightarrow> \<not> is_fin v)"
proof -
  have "length s - active_time s < length s"
    using assms active_time_le [of s] by simp
  then have "\<exists>start. gather_row D s (length s - active_time s) = Inr start"
    by (simp add: gather_row_def)
  then obtain start where g: "gather_row D s (length s - active_time s) = Inr start" ..
  show ?thesis
    unfolding metric_scale_series_def Let_def g ebind.simps
    by (auto intro!: root_norm_nonfinite div_zero_nonfinite)
qed

lemma elem_in_flat: "has_shape sh t \<Longrightarrow> valid sh p \<Longrightarrow> elem t p \<in> set (flat t)"
proof (induction sh arbitrary: t p)
  case Nil
  then show ?case by (auto simp: has_shape_Nil valid_Nil elem_def)
next
  case (Cons n sh)
  then obtain xs where t: "t = Ts sh xs" "length xs = n" "\<forall>x\<in>set xs. has_shape sh x"
    by (auto simp: has_shape_Cons)
  from Cons.prems obtain i q where p: "p = i # q" "i < n" "valid sh q"
    by (auto simp: valid_Cons)
  have "elem (xs ! i) q \<in> set (flat (xs ! i))"
    using t p by (intro Cons.IH) auto
  then show ?case using t p by (auto simp: elem_def)
qed

lemma fadd_NaN_right: "fadd x NaN = NaN"
  by (cases x) auto

lemma fsum_NaN: "NaN \<in> set xs \<Longrightarrow> fsum xs = NaN"
proof (induction xs)
  case Nil
  then show ?case by simp
next
  case (Cons x xs)
  then show ?case by (cases "x = NaN") (auto simp: fsum_def fadd_NaN_right)
qed

lemma fdiv_NaN_right: "fdiv x NaN = NaN"
  by (cases x) auto

lemma elem_zipT:
  assumes "has_shape sh a" "has_shape sh c" "valid sh p"
  shows "elem (zipT f a c) p = f (elem a p) (elem c p)"
proof -
  have a: "has_shape (sh @ []) a" and c: "has_shape (sh @ []) c" using assms by simp_all
  from has_shape_subt [OF a assms(3)] obtain x where x: "subt a p = Sc x"
    by (auto simp: has_shape_Nil)
  from has_shape_subt [OF c assms(3)] obtain y where y: "subt c p = Sc y"
    by (auto simp: has_shape_Nil)
  show ?thesis
    using subt_zipT [OF a c assms(3), of f] x y by (simp add: elem_def)
qed

lemma weighted_scale_NaN:
  assumes "get_metric_scale metric train_data = Inr scale" "has_shape B scale"
    and "valid B b" "elem scale b = NaN"
    and "has_shape B val" "has_shape B weight"
  shows "eval_weighted_scale metric val train_data weight = Inr NaN"
proof -
  let ?wv = "zipT fmul weight val"
  have wv: "has_shape B ?wv" using assms(5,6) by (simp add: has_shape_zipT)
  have r: "has_shape B (zipT fdiv ?wv scale)" using wv assms(2) by (simp add: has_shape_zipT)
  have "elem (zipT fdiv ?wv scale) b = NaN"
    using elem_zipT [OF wv assms(2,3), of fdiv] assms(4) by (simp add: fdiv_NaN_right)
  then have "NaN \<in> set (flat (zipT fdiv ?wv scale))"
    using elem_in_flat [OF r assms(3)] by simp
  then have "fsum (flat (zipT fdiv ?wv scale)) = NaN" by (rule fsum_NaN)
  then show ?thesis
    using assms(1) bop_same [OF assms(6,5), of fmul] bop_same [OF wv assms(2), of fdiv]
    by (simp add: eval_weighted_scale_def)
qed


lemma cumsum_from_positive_all:
  "0 < a \<Longrightarrow> \<forall>s\<in>set ss. 0 \<le> s \<Longrightarrow> list_all fne0 (cumsum_from (Fin a) (map Fin ss))"
proof (induction ss arbitrary: a)
  case Nil
  then show ?case by simp
next
  case (Cons s ss)
  then have "0 < a + s" by simp
  with Cons show ?case by simp
qed

lemma cumsum_reals_nonneg:
  "\<forall>s\<in>set ss. 0 \<le> s
   \<Longrightarrow> length (takeWhile feq0 (cumsum_from (Fin 0) (map Fin ss))) = length (takeWhile (\<lambda>s. s = 0) ss)
     \<and> list_all fne0 (dropWhile feq0 (cumsum_from (Fin 0) (map Fin ss)))"
proof (induction ss)
  case Nil
  then show ?case by simp
next
  case (Cons s ss)
  show ?case
  proof (cases "s = 0")
    case True
    then show ?thesis using Cons by simp
  next
    case False
    then have "0 < s" using Cons.prems by simp
    then show ?thesis using Cons.prems False cumsum_from_positive_all [of s ss] by simp
  qed
qed

lemma nonneg_series:
  assumes "\<forall>row\<in>set series. \<forall>x\<in>set row. is_fin x \<and> 0 \<le> rval x"
  shows "first_active series = leading_zero_run series" and "stays_active series"
proof -
  let ?ss = "map (\<lambda>row. sum_list (map rval row)) series"
  have sums: "map fsum series = map Fin ?ss"
    using assms by (simp add: fsum_fin)
  have nn: "\<forall>s\<in>set ?ss. 0 \<le> s"
    using assms by (auto intro!: sum_list_nonneg)
  note c = cumsum_reals_nonneg [OF nn]
  have "first_active series = length (takeWhile (\<lambda>s. s = 0) ?ss)"
    unfolding first_active_def cumsum_def sums using c by simp
  also have "\<dots> = length (takeWhile ((\<lambda>s. s = 0) \<circ> (\<lambda>row. sum_list (map rval row))) series)"
    by (simp add: takeWhile_map)
  also have "takeWhile ((\<lambda>s. s = 0) \<circ> (\<lambda>row. sum_list (map rval row))) series
      = takeWhile (list_all (\<lambda>x. x = Fin 0)) series"
    using assms by (intro takeWhile_cong refl) (simp add: sum_zero_iff)
  finally show "first_active series = leading_zero_run series"
    by (simp add: leading_zero_run_def)
  show "stays_active series"
    unfolding stays_active_def cumsum_def sums using c by simp
qed

lemma fsum_zeros_then: "fsum (map (\<lambda>t. Fin 0) ts @ [Fin v]) = Fin v"
  by (induction ts) (auto simp: fsum_def)

lemma spec_scale_one_active:
  assumes fin: "\<forall>row\<in>set s. \<forall>x\<in>set row. is_fin x \<and> 0 \<le> rval x"
    and rows: "\<forall>row\<in>set s. length row = D"
    and k: "first_active s < length s" and one: "length s - first_active s = 1"
  shows "spec_scale metric D s = NaN"
proof (cases "D = 0")
  case True
  then show ?thesis
    by (simp add: spec_scale_def fmean_def fsum_def inf_sign_def root_norm_def)
next
  case False
  then have D: "0 < D" by simp
  let ?k = "first_active s"
  define p :: nat where "p = (if metric = ''rmse'' then 2 else 1)"
  let ?g = "\<lambda>x. pow_norm p (fabs x)"
  have T: "length s = Suc ?k" using one by simp
  have g0: "?g (Fin 0) = Fin 0" by (simp add: pow_norm_def)
  have zero: "s ! t ! j = Fin 0" if "t < ?k" "j < D" for t j
  proof -
    have "t < length (takeWhile (list_all (\<lambda>x. x = Fin 0)) s)"
      using that nonneg_series(1) [OF fin] by (simp add: leading_zero_run_def)
    then have "list_all (\<lambda>x. x = Fin 0) (s ! t)"
      by (metis nth_length_takeWhile nth_mem set_takeWhileD takeWhile_nth)
    moreover have "length (s ! t) = D" using rows that T by simp
    ultimately show ?thesis using that by (simp add: list_all_length)
  qed
  have lag0: "lag_diff s t j = Fin 0" if "t < ?k" "j < D" for t j
    using that zero [of t j] zero [of "t - 1" j] by (simp add: lag_diff_def fsub_def)
  have xk: "is_fin (s ! ?k ! j)" if "j < D" for j
    using fin rows k that by (metis nth_mem)
  have lagk: "lag_diff s ?k j = s ! ?k ! j" if j: "j < D" for j
  proof -
    obtain v where v: "s ! ?k ! j = Fin v" using xk [OF j] by (auto simp: is_fin_conv)
    show ?thesis using v zero [of "?k - 1" j] j by (simp add: lag_diff_def fsub_def)
  qed
  have gfin: "\<exists>v. ?g (s ! ?k ! j) = Fin v" if j: "j < D" for j
  proof -
    obtain v where v: "s ! ?k ! j = Fin v" using xk [OF j] by (auto simp: is_fin_conv)
    show ?thesis by (simp add: v pow_norm_def)
  qed
  have per: "fsub (fsum (map (\<lambda>t. ?g (lag_diff s t j)) [0..<length s])) (?g (s ! ?k ! j)) = Fin 0"
    if j: "j < D" for j
  proof -
    obtain v where v: "?g (s ! ?k ! j) = Fin v" using gfin [OF j] by blast
    have z: "map (\<lambda>t. ?g (lag_diff s t j)) [0..<?k] = map (\<lambda>t. Fin 0) [0..<?k]"
      using lag0 j g0 by (intro map_cong refl) simp
    have "map (\<lambda>t. ?g (lag_diff s t j)) [0..<length s]
        = map (\<lambda>t. Fin 0) [0..<?k] @ [Fin v]"
      unfolding T using lagk [OF j] v z by simp
    then have "fsum (map (\<lambda>t. ?g (lag_diff s t j)) [0..<length s]) = Fin v"
      by (simp only: fsum_zeros_then)
    then show ?thesis using v by (simp add: fsub_def)
  qed
  have "map (\<lambda>j. fsub (fsum (map (\<lambda>t. ?g (lag_diff s t j)) [0..<length s])) (?g (s ! ?k ! j)))
      [0..<D] = map Fin (map (\<lambda>j. 0) [0..<D])"
    using per by (simp add: comp_def)
  then have "fmean (map (\<lambda>j. fsub (fsum (map (\<lambda>t. ?g (lag_diff s t j)) [0..<length s]))
      (?g (s ! ?k ! j))) [0..<D]) = Fin 0"
    using D by (simp only: fmean_def fsum_Fin) simp
  then show ?thesis
    unfolding spec_scale_def Let_def one p_def [symmetric]
    by (simp add: inf_sign_def root_norm_def)
qed

text \<open>
  A series of zeros has no active step: the start value is gathered at the index
  \<open>duration\<close>, which is out of bounds, and the estimator fails instead of returning a
  value. The series \<open>1, -1\<close> has one active step and the scale \<open>2 / 0\<close>, which is
  infinite, and the weighted scaled metric \<open>1 * 3 / \<infinity>\<close> is the finite number 0.
\<close>

theorem degenerate_scale_counterexample:
  "active_time (series_at (mat 1 [[Fin 0], [Fin 0], [Fin 0]]) []) = 0
   \<and> get_metric_scale ''mae'' (mat 1 [[Fin 0], [Fin 0], [Fin 0]]) = Inl RuntimeError
   \<and> active_time (series_at (mat 1 [[Fin 1], [Fin (- 1)]]) []) = 1
   \<and> get_metric_scale ''mae'' (mat 1 [[Fin 1], [Fin (- 1)]]) = Inr (Sc PInf)
   \<and> eval_weighted_scale ''mae'' (Sc (Fin 3)) (mat 1 [[Fin 1], [Fin (- 1)]]) (Sc (Fin 1))
       = Inr (Fin 0)"
  by (simp add: backtest_eval spec_eval)

text \<open>
  C5, as the code has it. When every series of the training data has at least one
  active step and the series at \<open>b\<close> has exactly one, the scale estimator returns a
  value for every series and the value at \<open>b\<close> is not finite. When the series at \<open>b\<close>
  has no negative value, that value is NaN, and the weighted scaled metric of any
  values and weights of the batch shape is NaN.
\<close>

theorem degenerate_scale:
  assumes sh: "has_shape (B @ [T, D]) train_data" and b: "valid B b"
    and pos: "\<forall>s\<in>set (series_of train_data). 0 < active_time s"
    and one: "active_time (series_at train_data b) = 1"
  shows "\<exists>scale. get_metric_scale metric train_data = Inr scale \<and> has_shape B scale
          \<and> \<not> is_fin (elem scale b)
          \<and> ((\<forall>row\<in>set (series_at train_data b). \<forall>x\<in>set row. is_fin x \<and> 0 \<le> rval x) \<longrightarrow>
               elem scale b = NaN
               \<and> (\<forall>val weight. has_shape B val \<and> has_shape B weight \<longrightarrow>
                     eval_weighted_scale metric val train_data weight = Inr NaN))"
proof -
  let ?f = "metric_scale_series metric"
  let ?g = "\<lambda>s. projr (?f D s)"
  let ?s = "series_at train_data b"
  have ret: "\<forall>s\<in>set (series_of train_data). ?f D s = Inr (?g s)"
  proof
    fix s assume "s \<in> set (series_of train_data)"
    then have "0 < active_time s" using pos by simp
    from metric_scale_series_returns [OF this, of metric D]
    show "?f D s = Inr (?g s)" by auto
  qed
  from map_series_lift [where f = ?f and g = ?g, OF sh ret] obtain scale
    where scale: "map_series ?f train_data = Inr scale" "has_shape B scale"
      "\<forall>b. valid B b \<longrightarrow> elem scale b = ?g (series_at train_data b)"
    by blast
  have gms: "get_metric_scale metric train_data = Inr scale"
    using scale(1) sh by (simp add: get_metric_scale_def has_shape_shape)
  have eb: "elem scale b = ?g ?s" using scale(3) b by simp
  have mem: "?s \<in> set (series_of train_data)" by (rule series_at_in_series_of [OF sh b])
  have nf: "\<not> is_fin (elem scale b)"
    using metric_scale_series_returns [of ?s metric D] one eb by auto
  have nan: "elem scale b = NaN"
    if nn: "\<forall>row\<in>set ?s. \<forall>x\<in>set row. is_fin x \<and> 0 \<le> rval x"
  proof -
    note r = series_rows [OF sh mem]
    have act: "stays_active ?s" by (rule nonneg_series(2) [OF nn])
    have "length ?s - first_active ?s = 1"
      using active_time_spec [OF act] one by simp
    moreover from this have k: "first_active ?s < length ?s" by simp
    ultimately have "spec_scale metric D ?s = NaN"
      using nn r by (intro spec_scale_one_active) auto
    moreover have "?f D ?s = Inr (spec_scale metric D ?s)"
      using r act k by (intro metric_scale_series_spec) auto
    ultimately show ?thesis using eb by simp
  qed
  show ?thesis
    using gms scale(2) nf nan weighted_scale_NaN [OF gms scale(2) b] by blast
qed

theorem degenerate_scale_witness:
  "\<exists>scale. get_metric_scale ''rmse'' (mat 1 [[Fin 0], [Fin 0], [Fin 5]]) = Inr scale
    \<and> elem scale [] = NaN
    \<and> eval_weighted_scale ''rmse'' (Sc (Fin 3)) (mat 1 [[Fin 0], [Fin 0], [Fin 5]])
         (Sc (Fin 1)) = Inr NaN"
proof -
  have a: "has_shape ([] @ [3, 1]) (mat 1 [[Fin 0 :: fv], [Fin 0], [Fin 5]])"
    by (simp add: mat_def vec_def)
  have b: "valid [] []" by (simp add: valid_def)
  have c: "\<forall>s\<in>set (series_of (mat 1 [[Fin 0], [Fin 0], [Fin 5]])). 0 < active_time s"
    by (simp add: backtest_eval)
  have d: "active_time (series_at (mat 1 [[Fin 0], [Fin 0], [Fin 5]]) []) = 1"
    by (simp add: backtest_eval series_at_def)
  have e: "\<forall>row\<in>set (series_at (mat 1 [[Fin 0], [Fin 0], [Fin 5]]) []). \<forall>x\<in>set row.
      is_fin x \<and> 0 \<le> rval x"
    by (simp add: series_at_def rows_of_def mat_def vec_def)
  have f: "has_shape [] (Sc (Fin 3)) \<and> has_shape [] (Sc (Fin 1))" by simp
  from degenerate_scale [OF a b c d, of "''rmse''"] e f show ?thesis by blast
qed

section \<open>The metrics, element by element\<close>

lemma valid_prod_pos: "valid B b \<Longrightarrow> 0 < prod_list B"
proof (induction B arbitrary: b)
  case Nil
  then show ?case by simp
next
  case (Cons n B)
  then show ?case by (auto simp: valid_Cons)
qed

lemma elem_map:
  assumes "has_shape sh t" "valid sh p"
  shows "elem (map_tensor f t) p = f (elem t p)"
proof -
  have t: "has_shape (sh @ []) t" using assms by simp
  from has_shape_subt [OF t assms(2)] obtain x where x: "subt t p = Sc x"
    by (auto simp: has_shape_Nil)
  show ?thesis using subt_map [OF t assms(2), of f] x by (simp add: elem_def)
qed

lemma elem_samples:
  assumes "xs \<noteq> []" "\<forall>x\<in>set xs. has_shape sh x" "valid sh p"
  shows "elem (samples xs) p = map (\<lambda>x. elem x p) xs"
proof -
  have all: "\<forall>x\<in>set xs. has_shape (sh @ []) x" using assms by simp
  have eq: "map (\<lambda>x. subt x p) xs = map Sc (map (\<lambda>x. elem x p) xs)"
  proof (simp, rule ballI)
    fix x assume "x \<in> set xs"
    then have "has_shape [] (subt x p)" using has_shape_subt [of sh "[]" x p] assms by simp
    then show "subt x p = Sc (elem x p)" by (auto simp: has_shape_Nil elem_def)
  qed
  have ne: "map (\<lambda>x. elem x p) xs \<noteq> []" using assms(1) by simp
  have "subt (samples xs) p = samples (map Sc (map (\<lambda>x. elem x p) xs))"
    unfolding eq [symmetric] by (rule subt_samples [OF assms(1) all assms(3)])
  also have "\<dots> = Sc (map (\<lambda>x. elem x p) xs)" by (rule samples_scalars [OF ne])
  finally show ?thesis by (simp add: elem_def [of "samples xs"])
qed

lemma subt_elem:
  "has_shape (B @ R) t \<Longrightarrow> valid B b \<Longrightarrow> elem (subt t b) q = elem t (b @ q)"
  by (simp add: elem_def subt_append)

lemma flat_vector: "has_shape [D] r \<Longrightarrow> flat r = map (\<lambda>d. elem r [d]) [0..<D]"
proof -
  assume "has_shape [D] r"
  then obtain cs where r: "r = Ts [] cs" "length cs = D" "\<forall>c\<in>set cs. has_shape [] c"
    by (auto simp: has_shape_Cons)
  then have "flat r = map unSc cs" by (simp add: flat_cells)
  also have "\<dots> = map (\<lambda>d. unSc (cs ! d)) [0..<D]"
    using r(2) by (auto simp: list_eq_iff_nth_eq)
  finally show ?thesis using r by (simp add: elem_def)
qed

lemma flat_matrix:
  assumes "has_shape [T, D] m"
  shows "flat m = concat (map (\<lambda>t. map (\<lambda>d. elem m [t, d]) [0..<D]) [0..<T])"
proof -
  from assms obtain rows where m: "m = Ts [D] rows" "length rows = T"
    "\<forall>r\<in>set rows. has_shape [D] r"
    by (auto simp: has_shape_Cons)
  have "map flat rows = map (\<lambda>t. flat (rows ! t)) [0..<T]"
    using m(2) by (auto simp: list_eq_iff_nth_eq)
  also have "\<dots> = map (\<lambda>t. map (\<lambda>d. elem m [t, d]) [0..<D]) [0..<T]"
  proof (rule map_cong [OF refl])
    fix t assume "t \<in> set [0..<T]"
    then have t: "t < length rows" "has_shape [D] (rows ! t)" using m by auto
    have "elem (rows ! t) [d] = elem m [t, d]" for d
      using m(1) by (simp add: elem_def)
    then show "flat (rows ! t) = map (\<lambda>d. elem m [t, d]) [0..<D]"
      using flat_vector [OF t(2)] by simp
  qed
  finally show ?thesis using m(1) by simp
qed

lemma mean_over_series_elem:
  assumes "has_shape (B @ [T, D]) truth" "has_shape (B @ [T, D]) x" "valid B b"
  shows "\<exists>r. mean_over_series truth x = Inr r \<and> has_shape B r
           \<and> elem r b = fmean (flat (subt x b))"
proof -
  have bs: "batch_shape truth = B"
    using assms(1) by (simp add: batch_shape_def has_shape_shape)
  have p: "0 < prod_list B" by (rule valid_prod_pos [OF assms(3)])
  have len: "length (flat x) = prod_list B * (T * D)"
    using length_flat [OF assms(2)] by simp
  have rs: "reshape_m1 B x = Inr (build (B @ [prod_list [T, D]]) (flat x))"
    using p len by (simp add: reshape_m1_def)
  show ?thesis
    unfolding mean_over_series_def bs rs ebind.simps
    using reduce_last_build [OF assms(2), of fmean]
      subt_reduce_last_build [OF assms(2,3), of fmean]
    by (simp add: elem_def del: build.simps)
qed

lemma sum_list_concat_real: "sum_list (concat xss) = sum_list (map sum_list xss :: real list)"
  by (induction xss) auto

lemma sum_list_upt: "sum_list (map f [0..<n]) = (\<Sum>i<n. f i :: real)"
  by (simp add: interv_sum_list_conv_sum_set_nat atLeast_upt)

lemma fmean_Fin: "rs \<noteq> [] \<Longrightarrow> fmean (map Fin rs) = Fin (sum_list rs / real (length rs))"
  by (simp add: fmean_def fsum_Fin)

lemma fmean_upt:
  assumes "0 < n" "\<forall>i<n. f i = Fin (g i)"
  shows "fmean (map f [0..<n]) = Fin ((\<Sum>i<n. g i) / real n)"
proof -
  have eq: "map f [0..<n] = map Fin (map g [0..<n])" using assms(2) by simp
  have ne: "map g [0..<n] \<noteq> []" using assms(1) by simp
  show ?thesis unfolding eq fmean_Fin [OF ne] by (simp add: sum_list_upt)
qed

lemma fmean_table:
  assumes "has_shape (B @ [T, D]) x" "valid B b" "0 < T" "0 < D"
    and "\<forall>t<T. \<forall>d<D. elem x (b @ [t, d]) = Fin (F t d)"
  shows "fmean (flat (subt x b)) = Fin ((\<Sum>t<T. \<Sum>d<D. F t d) / real (T * D))"
proof -
  let ?rs = "concat (map (\<lambda>t. map (F t) [0..<D]) [0..<T])"
  have m: "has_shape [T, D] (subt x b)" by (rule has_shape_subt [OF assms(1,2)])
  have "flat (subt x b) = concat (map (\<lambda>t. map (\<lambda>d. elem x (b @ [t, d])) [0..<D]) [0..<T])"
    unfolding flat_matrix [OF m] by (simp add: subt_elem [OF assms(1,2)])
  also have "\<dots> = concat (map (\<lambda>t. map (\<lambda>d. Fin (F t d)) [0..<D]) [0..<T])"
    using assms(5) by (intro arg_cong [where f = concat] map_cong refl) simp
  also have "\<dots> = map Fin ?rs" by (simp add: map_concat comp_def)
  finally have fl: "flat (subt x b) = map Fin ?rs" .
  have len: "length ?rs = T * D"
    by (simp add: length_concat comp_def sum_list_const [where m = D])
  then have ne: "?rs \<noteq> []" using assms(3,4) by auto
  have "sum_list ?rs = (\<Sum>t<T. \<Sum>d<D. F t d)"
    by (simp add: sum_list_concat_real comp_def sum_list_upt)
  then show ?thesis unfolding fl fmean_Fin [OF ne] len by simp
qed

lemma elem_pred:
  assumes "has_shape (S # sh) pred" "valid sh p" "0 < S"
  shows "elem (samples (children pred)) p = map (\<lambda>s. elem pred (s # p)) [0..<S]"
proof -
  from assms obtain xs where pr: "pred = Ts sh xs" "length xs = S" "\<forall>x\<in>set xs. has_shape sh x"
    by (auto simp: has_shape_Cons)
  have ne: "xs \<noteq> []" using pr assms(3) by auto
  have "elem (samples xs) p = map (\<lambda>x. elem x p) xs"
    by (rule elem_samples [OF ne pr(3) assms(2)])
  also have "\<dots> = map (\<lambda>s. elem (xs ! s) p) [0..<S]"
    using pr(2) by (auto simp: list_eq_iff_nth_eq)
  finally show ?thesis using pr(1) by (simp add: elem_def)
qed

lemma elem_fin:
  assumes "has_shape sh t" "valid sh p" "\<forall>x\<in>set (flat t). is_fin x"
  shows "elem t p = Fin (rval (elem t p))"
  using elem_in_flat [OF assms(1,2)] assms(3) by (simp add: is_fin_conv [symmetric])

lemma valid_Cons_I: "i < n \<Longrightarrow> valid sh p \<Longrightarrow> valid (n # sh) (i # p)"
  by (simp add: valid_def)

lemma valid_td: "valid B b \<Longrightarrow> t < T \<Longrightarrow> d < D \<Longrightarrow> valid (B @ [T, D]) (b @ [t, d])"
  by (intro valid_append) (simp_all add: valid_def)

lemma bshape_rev_first: "bshape_rev (xs @ [K]) (xs @ [Suc 0]) = Some (xs @ [K])"
  by (induction xs) auto

lemma broadcast_unsqueezed: "broadcast_shapes (K # sh) (1 # sh) = Some (K # sh)"
  by (simp add: broadcast_shapes_def bshape_rev_first)

lemma expand_unsqueezed:
  "has_shape sh t \<Longrightarrow> expand (K # sh) (unsqueeze0 t) = Ts sh (replicate K t)"
  by (auto simp: unsqueeze0_def has_shape_shape expand_same)

lemma elem_full: "valid sh p \<Longrightarrow> elem (full sh v) p = v"
proof (induction sh arbitrary: p)
  case Nil
  then show ?case by (simp add: valid_Nil elem_def)
next
  case (Cons n sh)
  then show ?case by (auto simp: valid_Cons elem_def)
qed

lemma elem_Ts: "elem (Ts sh ys) (k # p) = elem (ys ! k) p"
  by (simp add: elem_def)

lemma set_finsert: "set (finsert x ys) = insert x (set ys)"
  by (induction ys) auto

lemma length_finsert: "length (finsert x ys) = Suc (length ys)"
  by (induction ys) auto

lemma set_fsort: "set (fsort xs) = set xs"
  by (induction xs) (auto simp: fsort_def set_finsert)

lemma length_fsort: "length (fsort xs) = length xs"
  by (induction xs) (auto simp: fsort_def length_finsert)

lemma fsort_fin:
  "\<forall>x\<in>set xs. is_fin x \<Longrightarrow> i < length xs \<Longrightarrow> is_fin (fsort xs ! i)"
  by (metis length_fsort nth_mem set_fsort)

lemma median_fin:
  assumes "\<forall>x\<in>set xs. is_fin x" "xs \<noteq> []"
  shows "is_fin (median xs)"
proof -
  have "NaN \<notin> set xs" using assms(1) by auto
  moreover have "(length xs - 1) div 2 < length xs" using assms(2) by (cases xs) auto
  ultimately show ?thesis using fsort_fin [OF assms(1)] by (simp add: median_def)
qed

lemma quantile_weights_ok:
  assumes "0 \<le> u" "u \<le> 1" "0 < n"
  shows "\<exists>lo hi w. quantile_weights u n = Inr (lo, hi, w) \<and> lo < n \<and> hi < n"
proof -
  let ?m = "int n - 1"
  let ?idx = "u * real_of_int ?m"
  have m: "0 \<le> ?m" using assms(3) by simp
  have i0: "0 \<le> ?idx" using assms(1) m by simp
  have i1: "?idx \<le> real_of_int ?m"
  proof -
    have "u * real_of_int ?m \<le> 1 * real_of_int ?m"
      using assms(2) m by (intro mult_right_mono) simp_all
    then show ?thesis by simp
  qed
  have lo0: "0 \<le> \<lfloor>?idx\<rfloor>" using i0 by simp
  have lo1: "\<lfloor>?idx\<rfloor> \<le> ?m"
  proof -
    have "\<lfloor>?idx\<rfloor> \<le> \<lfloor>real_of_int ?m\<rfloor>" by (rule floor_mono [OF i1])
    then show ?thesis by (simp only: floor_of_int)
  qed
  have hi0: "0 \<le> min (\<lfloor>?idx\<rfloor> + 1) ?m" using lo0 m by simp
  have "quantile_weights u n
      = Inr (nat \<lfloor>?idx\<rfloor>, nat (min (\<lfloor>?idx\<rfloor> + 1) ?m), ?idx - real_of_int \<lfloor>?idx\<rfloor>)"
    using i0 lo0 lo1 hi0 assms(3) unfolding quantile_weights_def Let_def
    by (simp add: not_less)
  moreover have "nat \<lfloor>?idx\<rfloor> < n" using lo0 lo1 by linarith
  moreover have "nat (min (\<lfloor>?idx\<rfloor> + 1) ?m) < n" using hi0 by linarith
  ultimately show ?thesis by blast
qed

lemma quantile_at_fin:
  assumes "\<forall>x\<in>set xs. is_fin x" "lo < length xs" "hi < length xs"
  shows "is_fin (quantile_at (lo, hi, w) xs)"
proof -
  obtain a where a: "fsort xs ! lo = Fin a"
    using fsort_fin [OF assms(1,2)] by (auto simp: is_fin_conv)
  obtain c where c: "fsort xs ! hi = Fin c"
    using fsort_fin [OF assms(1,3)] by (auto simp: is_fin_conv)
  show ?thesis by (simp add: a c)
qed

lemma empirical_quantile_fin:
  assumes "0 \<le> u" "u \<le> 1" "xs \<noteq> []" "\<forall>x\<in>set xs. is_fin x"
  shows "\<exists>w. quantile_weights u (length xs) = Inr w
           \<and> empirical_quantile u xs = quantile_at w xs \<and> is_fin (quantile_at w xs)"
proof -
  have "0 < length xs" using assms(3) by simp
  from quantile_weights_ok [OF assms(1,2) this] obtain lo hi w where
    w: "quantile_weights u (length xs) = Inr (lo, hi, w)" "lo < length xs" "hi < length xs"
    by blast
  then show ?thesis
    using quantile_at_fin [OF assms(4) w(2,3)] by (simp add: empirical_quantile_def)
qed

lemma pinball_nonneg: "0 \<le> q \<Longrightarrow> q \<le> 1 \<Longrightarrow> 0 \<le> pinball q e"
  by (auto simp: pinball_def mult_nonneg_nonpos intro!: mult_nonneg_nonneg)

lemma pl_weight_Fin:
  "fmul (pl_weight (Fin e) (Fin q)) (Fin e) = Fin (pinball q e)"
  by (simp add: pl_weight_def pinball_def fsub_def)

lemma eval_rmse_elem:
  assumes pr: "has_shape (S # B @ [T, D]) pred" and tr: "has_shape (B @ [T, D]) truth"
    and pos: "0 < S" "0 < T" "0 < D" and b: "valid B b"
    and pfin: "\<forall>x\<in>set (flat pred). is_fin x" and tfin: "\<forall>x\<in>set (flat truth). is_fin x"
  shows "\<exists>r. eval_rmse pred truth = Inr r \<and> has_shape B r
     \<and> elem r b = Fin (sqrt ((\<Sum>t<T. \<Sum>d<D.
          ((\<Sum>s<S. rval (elem pred (s # b @ [t, d]))) / real S
            - rval (elem truth (b @ [t, d])))\<^sup>2) / real (T * D)))"
proof -
  let ?sh = "B @ [T, D]"
  let ?F = "\<lambda>t d. ((\<Sum>s<S. rval (elem pred (s # b @ [t, d]))) / real S
            - rval (elem truth (b @ [t, d])))\<^sup>2"
  from pr obtain xs where p: "pred = Ts ?sh xs" "length xs = S"
    by (auto simp: has_shape_Cons)
  have ne: "xs \<noteq> []" using p pos by auto
  let ?m = "reduce0 fmean pred"
  have m: "?m = map_tensor fmean (samples (children pred))" using p ne by simp
  have msh: "has_shape ?sh ?m" by (rule has_shape_reduce0 [OF pr])
  have ssh: "has_shape ?sh (samples (children pred))"
    using pr p ne by (auto intro!: has_shape_samples simp: has_shape_Cons)
  let ?e = "zipT fsub ?m truth"
  have esh: "has_shape ?sh ?e" using msh tr by (rule has_shape_zipT)
  let ?x = "map_tensor (\<lambda>e. fmul e e) ?e"
  have xsh: "has_shape ?sh ?x" using esh by (rule has_shape_map)
  have el: "elem ?x (b @ [t, d]) = Fin (?F t d)" if td: "t < T" "d < D" for t d
  proof -
    let ?p = "b @ [t, d]"
    have v: "valid ?sh ?p" by (rule valid_td [OF b td])
    have "elem pred (s # ?p) = Fin (rval (elem pred (s # ?p)))" if "s < S" for s
      by (rule elem_fin [OF pr valid_Cons_I [OF that v] pfin])
    then have "elem ?m ?p = Fin ((\<Sum>s<S. rval (elem pred (s # ?p))) / real S)"
      unfolding m elem_map [OF ssh v] elem_pred [OF pr v pos(1)]
      by (intro fmean_upt [OF pos(1)]) simp
    moreover have "elem truth ?p = Fin (rval (elem truth ?p))"
      by (rule elem_fin [OF tr v tfin])
    ultimately have "elem ?e ?p = Fin ((\<Sum>s<S. rval (elem pred (s # ?p))) / real S
        - rval (elem truth ?p))"
      unfolding elem_zipT [OF msh tr v] by (metis fadd.simps(1) fneg.simps(1) fsub_def diff_conv_add_uminus)
    then show ?thesis unfolding elem_map [OF esh v] by (simp add: power2_eq_square)
  qed
  from mean_over_series_elem [OF tr xsh b] obtain r where
    r: "mean_over_series truth ?x = Inr r" "has_shape B r" "elem r b = fmean (flat (subt ?x b))"
    by blast
  have rb: "elem r b = Fin ((\<Sum>t<T. \<Sum>d<D. ?F t d) / real (T * D))"
    unfolding r(3) using el by (intro fmean_table [OF xsh b pos(2,3)]) simp
  have nn: "0 \<le> (\<Sum>t<T. \<Sum>d<D. ?F t d) / real (T * D)"
    by (intro divide_nonneg_nonneg sum_nonneg) simp_all
  have vb: "valid B b" by (rule b)
  have "eval_rmse pred truth = Inr (map_tensor fsqrt r)"
    using bop_same [OF msh tr, of fsub] r(1) by (simp add: eval_rmse_def)
  moreover have "has_shape B (map_tensor fsqrt r)" using r(2) by (rule has_shape_map)
  moreover have "elem (map_tensor fsqrt r) b = Fin (sqrt ((\<Sum>t<T. \<Sum>d<D. ?F t d) / real (T * D)))"
    unfolding elem_map [OF r(2) vb] rb using nn by simp
  ultimately show ?thesis by blast
qed

lemma elem_reduce0:
  assumes "has_shape (S # sh) t" "0 < S" "valid sh p"
  shows "elem (reduce0 g t) p = g (map (\<lambda>s. elem t (s # p)) [0..<S])"
proof -
  from assms obtain xs where t: "t = Ts sh xs" "length xs = S" "\<forall>x\<in>set xs. has_shape sh x"
    by (auto simp: has_shape_Cons)
  have ne: "xs \<noteq> []" using t assms(2) by auto
  have ssh: "has_shape sh (samples (children t))"
    using t ne by (auto intro!: has_shape_samples)
  have "reduce0 g t = map_tensor g (samples (children t))" using t ne by simp
  then show ?thesis
    using elem_map [OF ssh assms(3), of g] elem_pred [OF assms(1,3,2)] by simp
qed

lemma fsub_Fin: "fsub (Fin a) (Fin c) = Fin (a - c)"
  by (simp add: fsub_def)

lemma eval_mae_elem:
  assumes pr: "has_shape (S # B @ [T, D]) pred" and tr: "has_shape (B @ [T, D]) truth"
    and pos: "0 < S" "0 < T" "0 < D" and b: "valid B b"
    and pfin: "\<forall>x\<in>set (flat pred). is_fin x" and tfin: "\<forall>x\<in>set (flat truth). is_fin x"
  shows "\<exists>r. eval_mae pred truth = Inr r \<and> has_shape B r
     \<and> elem r b = Fin ((\<Sum>t<T. \<Sum>d<D.
          \<bar>rval (median (map (\<lambda>s. elem pred (s # b @ [t, d])) [0..<S]))
            - rval (elem truth (b @ [t, d]))\<bar>) / real (T * D))"
proof -
  let ?sh = "B @ [T, D]"
  let ?L = "\<lambda>p. map (\<lambda>s. elem pred (s # p)) [0..<S]"
  let ?F = "\<lambda>t d. \<bar>rval (median (?L (b @ [t, d]))) - rval (elem truth (b @ [t, d]))\<bar>"
  from pr obtain xs where p: "pred = Ts ?sh xs" "length xs = S"
    by (auto simp: has_shape_Cons)
  have ne: "xs \<noteq> []" using p pos by auto
  let ?m = "reduce0 median pred"
  have m0: "median0 pred = Inr ?m" using p ne by simp
  have msh: "has_shape ?sh ?m" by (rule has_shape_reduce0 [OF pr])
  let ?e = "zipT fsub ?m truth"
  have esh: "has_shape ?sh ?e" using msh tr by (rule has_shape_zipT)
  let ?x = "map_tensor fabs ?e"
  have xsh: "has_shape ?sh ?x" using esh by (rule has_shape_map)
  have el: "elem ?x (b @ [t, d]) = Fin (?F t d)" if td: "t < T" "d < D" for t d
  proof -
    let ?p = "b @ [t, d]"
    have v: "valid ?sh ?p" by (rule valid_td [OF b td])
    have "is_fin (elem pred (s # ?p))" if "s < S" for s
      using elem_fin [OF pr valid_Cons_I [OF that v] pfin] by (simp add: is_fin_conv [symmetric])
    then have "is_fin (median (?L ?p))"
      using pos(1) by (intro median_fin) auto
    then have "elem ?m ?p = Fin (rval (median (?L ?p)))"
      unfolding elem_reduce0 [OF pr pos(1) v] by (simp add: is_fin_conv [symmetric])
    moreover have "elem truth ?p = Fin (rval (elem truth ?p))"
      by (rule elem_fin [OF tr v tfin])
    ultimately have "elem ?e ?p = Fin (rval (median (?L ?p)) - rval (elem truth ?p))"
      unfolding elem_zipT [OF msh tr v] by (metis fsub_Fin)
    then show ?thesis unfolding elem_map [OF esh v] by simp
  qed
  from mean_over_series_elem [OF tr xsh b] obtain r where
    r: "mean_over_series truth ?x = Inr r" "has_shape B r" "elem r b = fmean (flat (subt ?x b))"
    by blast
  have rb: "elem r b = Fin ((\<Sum>t<T. \<Sum>d<D. ?F t d) / real (T * D))"
    unfolding r(3) using el by (intro fmean_table [OF xsh b pos(2,3)]) simp
  have "eval_mae pred truth = Inr r"
    using m0 bop_same [OF msh tr, of fsub] r(1) by (simp add: eval_mae_def)
  then show ?thesis using r(2) rb by blast
qed

lemma eval_pl_elem:
  assumes pr: "has_shape (S # B @ [T, D]) pred" and tr: "has_shape (B @ [T, D]) truth"
    and pos: "0 < S" "0 < T" "0 < D" and b: "valid B b"
    and pfin: "\<forall>x\<in>set (flat pred). is_fin x" and tfin: "\<forall>x\<in>set (flat truth). is_fin x"
    and us: "us \<noteq> []" "\<forall>u\<in>set us. 0 \<le> u \<and> u \<le> 1"
  shows "\<exists>r. eval_pl us pred truth = Inr r \<and> has_shape B r
     \<and> elem r b = Fin ((\<Sum>t<T. \<Sum>d<D.
          (\<Sum>k<length us. pinball (us ! k)
             (rval (empirical_quantile (us ! k) (map (\<lambda>s. elem pred (s # b @ [t, d])) [0..<S]))
               - rval (elem truth (b @ [t, d])))) / real (length us)) / real (T * D))"
proof -
  let ?sh = "B @ [T, D]"
  let ?K = "length us"
  let ?L = "\<lambda>p. map (\<lambda>s. elem pred (s # p)) [0..<S]"
  let ?E = "\<lambda>k p. rval (empirical_quantile (us ! k) (?L p)) - rval (elem truth p)"
  let ?F = "\<lambda>t d. (\<Sum>k<?K. pinball (us ! k) (?E k (b @ [t, d]))) / real ?K"
  let ?W = "\<lambda>u. projr (quantile_weights u S)"
  have K: "0 < ?K" using us(1) by simp
  from pr obtain xs where p: "pred = Ts ?sh xs" "length xs = S" "\<forall>x\<in>set xs. has_shape ?sh x"
    by (auto simp: has_shape_Cons)
  have ne: "xs \<noteq> []" using p pos by auto
  have ssh: "has_shape ?sh (samples xs)" using ne p(3) by (rule has_shape_samples)
  \<comment> \<open>the quantiles\<close>
  have "\<forall>u\<in>set us. quantile_weights u (length xs) = Inr (?W u)"
  proof
    fix u assume "u \<in> set us"
    then have "0 \<le> u" "u \<le> 1" using us(2) by auto
    from quantile_weights_ok [OF this pos(1)] show "quantile_weights u (length xs) = Inr (?W u)"
      using p(2) by auto
  qed
  then have seq: "sequence (map (\<lambda>u. quantile_weights u (length xs)) us) = Inr (map ?W us)"
    by (rule sequence_Inr)
  let ?q = "Ts ?sh (map (\<lambda>w. map_tensor (quantile_at w) (samples xs)) (map ?W us))"
  have q: "quantile us pred = Inr ?q" using p(1) seq by simp
  have qsh: "has_shape (?K # ?sh) ?q" using ssh by (auto intro: has_shape_map)
  \<comment> \<open>the errors and their weights\<close>
  let ?tt = "Ts ?sh (replicate ?K truth)"
  have ttsh: "has_shape (?K # ?sh) ?tt" using tr by simp
  let ?e = "zipT fsub ?q ?tt"
  have sq: "shape ?q = ?K # ?sh" by simp
  have su: "shape (unsqueeze0 truth) = 1 # ?sh"
    using tr by (simp add: unsqueeze0_def has_shape_shape)
  have b1: "bop fsub ?q (unsqueeze0 truth) = Inr ?e"
    unfolding bop_def sq su broadcast_unsqueezed option.case
      expand_same [OF qsh] expand_unsqueezed [OF tr] ..
  have esh: "has_shape (?K # ?sh) ?e" using qsh ttsh by (rule has_shape_zipT)
  let ?ut = "Ts ?sh (map (\<lambda>u. full ?sh (Fin u)) us)"
  have ut: "us_tensor us (shape ?q) = ?ut" by (simp add: us_tensor_def)
  have utsh: "has_shape (?K # ?sh) ?ut" by (simp add: has_shape_full)
  let ?w = "zipT pl_weight ?e ?ut"
  have wsh: "has_shape (?K # ?sh) ?w" using esh utsh by (rule has_shape_zipT)
  let ?pe = "zipT fmul ?w ?e"
  have pesh: "has_shape (?K # ?sh) ?pe" using wsh esh by (rule has_shape_zipT)
  let ?x = "reduce0 fmean ?pe"
  have xsh: "has_shape ?sh ?x" by (rule has_shape_reduce0 [OF pesh])
  have ev: "eval_pl us pred truth = mean_over_series truth ?x"
    unfolding eval_pl_def q ebind.simps b1 ut
      bop_same [OF esh utsh] bop_same [OF wsh esh] ..
  \<comment> \<open>one element\<close>
  have el: "elem ?x (b @ [t, d]) = Fin (?F t d)" if td: "t < T" "d < D" for t d
  proof -
    let ?p = "b @ [t, d]"
    have v: "valid ?sh ?p" by (rule valid_td [OF b td])
    have Lfin: "\<forall>x\<in>set (?L ?p). is_fin x"
    proof
      fix x assume "x \<in> set (?L ?p)"
      then obtain s where s: "s < S" "x = elem pred (s # ?p)" by auto
      show "is_fin x"
        using elem_fin [OF pr valid_Cons_I [OF s(1) v] pfin] s(2)
        by (simp add: is_fin_conv [symmetric])
    qed
    have Lne: "?L ?p \<noteq> []" using pos(1) by simp
    have y: "elem truth ?p = Fin (rval (elem truth ?p))" by (rule elem_fin [OF tr v tfin])
    have one: "elem ?pe (k # ?p) = Fin (pinball (us ! k) (?E k ?p))" if k: "k < ?K" for k
    proof -
      have vk: "valid (?K # ?sh) (k # ?p)" by (rule valid_Cons_I [OF k v])
      have u: "0 \<le> us ! k" "us ! k \<le> 1" using us(2) k by auto
      from empirical_quantile_fin [OF u Lne Lfin] obtain w where
        w: "quantile_weights (us ! k) (length (?L ?p)) = Inr w"
          "empirical_quantile (us ! k) (?L ?p) = quantile_at w (?L ?p)"
          "is_fin (quantile_at w (?L ?p))"
        by blast
      have W: "?W (us ! k) = w" using w(1) by simp
      have "elem ?q (k # ?p) = quantile_at w (?L ?p)"
        using k W elem_map [OF ssh v] elem_pred [OF pr v pos(1)] p(1)
        by (simp add: elem_Ts)
      then have eq: "elem ?q (k # ?p) = Fin (rval (empirical_quantile (us ! k) (?L ?p)))"
        using w(2,3) by (simp add: is_fin_conv [symmetric])
      have et: "elem ?tt (k # ?p) = elem truth ?p" using k by (simp add: elem_Ts)
      have eu: "elem ?ut (k # ?p) = Fin (us ! k)" using k v by (simp add: elem_Ts elem_full)
      have ee: "elem ?e (k # ?p) = Fin (?E k ?p)"
        unfolding elem_zipT [OF qsh ttsh vk] eq et by (subst y) (simp only: fsub_Fin)
      show ?thesis
        unfolding elem_zipT [OF wsh esh vk] elem_zipT [OF esh utsh vk] ee eu
        by (rule pl_weight_Fin)
    qed
    show ?thesis
      unfolding elem_reduce0 [OF pesh K v] using one by (intro fmean_upt [OF K]) simp
  qed
  from mean_over_series_elem [OF tr xsh b] obtain r where
    r: "mean_over_series truth ?x = Inr r" "has_shape B r" "elem r b = fmean (flat (subt ?x b))"
    by blast
  have rb: "elem r b = Fin ((\<Sum>t<T. \<Sum>d<D. ?F t d) / real (T * D))"
    unfolding r(3) using el by (intro fmean_table [OF xsh b pos(2,3)]) simp
  show ?thesis using ev r(1,2) rb by auto
qed


section \<open>RMSE\<close>




section \<open>Pinball loss\<close>




section \<open>The metrics are not negative\<close>

text \<open>
  C10. For an ensemble of \<open>S\<close> samples and a truth of the same batch shape, duration
  \<open>T\<close> and \<open>D\<close> channels (all at least 1, all values finite), MAE, RMSE and the pinball
  loss over levels between 0 and 1 return a value for every batch element, and the
  value at every batch index \<open>b\<close> is a finite number that is not negative.
\<close>

theorem metrics_nonnegative:
  assumes "has_shape (S # B @ [T, D]) pred" and "has_shape (B @ [T, D]) truth"
    and "0 < S" "0 < T" "0 < D" and "valid B b"
    and "\<forall>x\<in>set (flat pred). is_fin x" and "\<forall>x\<in>set (flat truth). is_fin x"
    and "us \<noteq> []" "\<forall>u\<in>set us. 0 \<le> u \<and> u \<le> 1"
  shows "(\<exists>r v. eval_mae pred truth = Inr r \<and> has_shape B r \<and> elem r b = Fin v \<and> 0 \<le> v)
       \<and> (\<exists>r v. eval_rmse pred truth = Inr r \<and> has_shape B r \<and> elem r b = Fin v \<and> 0 \<le> v)
       \<and> (\<exists>r v. eval_pl us pred truth = Inr r \<and> has_shape B r \<and> elem r b = Fin v \<and> 0 \<le> v)"
proof -
  have pb: "0 \<le> pinball (us ! k) e" if "k < length us" for k e
    using assms(10) that by (intro pinball_nonneg) auto
  have mae: "\<exists>r v. eval_mae pred truth = Inr r \<and> has_shape B r \<and> elem r b = Fin v \<and> 0 \<le> v"
    using eval_mae_elem [OF assms(1-8)]
    by (fastforce intro!: divide_nonneg_nonneg sum_nonneg)
  have rmse: "\<exists>r v. eval_rmse pred truth = Inr r \<and> has_shape B r \<and> elem r b = Fin v \<and> 0 \<le> v"
    using eval_rmse_elem [OF assms(1-8)]
    by (fastforce intro!: real_sqrt_ge_zero divide_nonneg_nonneg sum_nonneg)
  have "0 \<le> (\<Sum>t<T. \<Sum>d<D.
          (\<Sum>k<length us. pinball (us ! k)
             (rval (empirical_quantile (us ! k) (map (\<lambda>s. elem pred (s # b @ [t, d])) [0..<S]))
               - rval (elem truth (b @ [t, d])))) / real (length us)) / real (T * D)"
    using pb by (intro divide_nonneg_nonneg sum_nonneg) simp_all
  then have pl: "\<exists>r v. eval_pl us pred truth = Inr r \<and> has_shape B r \<and> elem r b = Fin v \<and> 0 \<le> v"
    using eval_pl_elem [OF assms] by blast
  from mae rmse pl show ?thesis by blast
qed

theorem metrics_nonnegative_witness:
  "(\<exists>r v. eval_mae (Ts [2, 1] [mat 1 [[Fin 1], [Fin 2]], mat 1 [[Fin 3], [Fin 5]]])
             (mat 1 [[Fin 0], [Fin 4]]) = Inr r \<and> elem r [] = Fin v \<and> 0 \<le> v)
   \<and> (\<exists>r v. eval_rmse (Ts [2, 1] [mat 1 [[Fin 1], [Fin 2]], mat 1 [[Fin 3], [Fin 5]]])
             (mat 1 [[Fin 0], [Fin 4]]) = Inr r \<and> elem r [] = Fin v \<and> 0 \<le> v)
   \<and> (\<exists>r v. eval_pl [1 / 4, 1 / 2] (Ts [2, 1] [mat 1 [[Fin 1], [Fin 2]], mat 1 [[Fin 3], [Fin 5]]])
             (mat 1 [[Fin 0], [Fin 4]]) = Inr r \<and> elem r [] = Fin v \<and> 0 \<le> v)"
proof -
  let ?pred = "Ts [2, 1] [mat 1 [[Fin 1 :: fv], [Fin 2]], mat 1 [[Fin 3], [Fin 5]]]"
  let ?truth = "mat 1 [[Fin 0 :: fv], [Fin 4]]"
  have a: "has_shape (2 # [] @ [2, 1]) ?pred" by (simp add: mat_def vec_def)
  have b: "has_shape ([] @ [2, 1]) ?truth" by (simp add: mat_def vec_def)
  have c: "(0::nat) < 2" "(0::nat) < 2" "(0::nat) < 1" by simp_all
  have d: "valid [] []" by (simp add: valid_def)
  have e: "\<forall>x\<in>set (flat ?pred). is_fin x" by (simp add: mat_def vec_def)
  have f: "\<forall>x\<in>set (flat ?truth). is_fin x" by (simp add: mat_def vec_def)
  have g: "[1 / 4, 1 / 2 :: real] \<noteq> []" "\<forall>u\<in>set [1 / 4, 1 / 2 :: real]. 0 \<le> u \<and> u \<le> 1"
    by simp_all
  from metrics_nonnegative [OF a b c d e f g] show ?thesis by blast
qed

end
